theory Spec2Isabelle
  imports Complex_Main
begin

section \<open>The training-session coordinator of \<^verbatim>\<open>vizbot/core/trainer.py\<close>\<close>

text \<open>
  The class \<^verbatim>\<open>Trainer\<close> is embedded as a record of its fields and one function per
  method. The collaborators the file imports but does not define (the learning agent,
  the environment, the preprocessing wrappers, \<^verbatim>\<open>GymEnv\<close>, \<^verbatim>\<open>Experience\<close>,
  \<^verbatim>\<open>ensure_directory\<close>, \<^verbatim>\<open>np.save\<close>) are parameters: each of their operations is
  a function on an outside world \<open>'w\<close> that returns either a raised exception
  (\<open>Inl\<close>) or a value (\<open>Inr\<close>) together with the new world. Python integers are
  \<open>int\<close>; rewards and scores are \<open>real\<close> (the rounding of floats is not modelled).
\<close>

subsection \<open>Exceptions, calls and the trace\<close>

datatype exn =
    StopEpisode
  | StopTraining
  | RuntimeError string
  | ZeroDivisionError
  | Fault string

type_synonym ('r, 'w) call = "'w \<Rightarrow> (exn + 'r) \<times> 'w"

text \<open>
  The trace lists, in order, what a method did that is visible outside its local
  variables: taking and releasing the session lock \<^verbatim>\<open>self._lock\<close> and the lock of an
  environment, every call of a collaborator with its outcome (\<open>None\<close>: it returned,
  \<open>Some e\<close>: it raised \<open>e\<close>), the message printed at the end of an epoch, and the two
  writes to shared fields the claims are about (the append to \<^verbatim>\<open>self._scores\<close> and
  \<^verbatim>\<open>self._running = False\<close>). Environments are named by their object identity.
\<close>

datatype event =
    Acquire_lock
  | Release_lock
  | Acquire_env_lock nat
  | Release_env_lock nat
  | Agent_start "exn option"
  | Env_reset nat "exn option"
  | Agent_step "exn option"
  | Env_step nat "exn + real"
  | Agent_experience real "exn option"
  | Experience_new "exn option"
  | Experience_append real "exn option"
  | Agent_stop "exn option"
  | Experience_save int "exn option"
  | Scores_append real
  | Print_epoch int int real
  | Set_running_False
  | Env_close nat "exn option"
  | Np_save "real list" "exn option"

definition raised :: "exn + 'r \<Rightarrow> exn option" where
  "raised r = (case r of Inl e \<Rightarrow> Some e | Inr v \<Rightarrow> None)"

subsection \<open>Collaborators\<close>

text \<open>
  An environment object: its identity, and \<^verbatim>\<open>reset\<close>, \<^verbatim>\<open>step\<close> and \<^verbatim>\<open>close\<close>.
  \<^verbatim>\<open>GymEnv\<close> is constructed with the bound method \<^verbatim>\<open>self._video_callback\<close>, which
  reads the trainer's fields whenever the environment calls it; in the model
  \<^verbatim>\<open>reset\<close> and \<^verbatim>\<open>step\<close> receive the callback as it stands at the time of the call.
\<close>

record ('w, 's, 'a) env =
  env_id :: nat
  env_reset :: "(int \<Rightarrow> bool) \<Rightarrow> ('s, 'w) call"
  env_step :: "(int \<Rightarrow> bool) \<Rightarrow> 'a \<Rightarrow> ('s \<times> real, 'w) call"
  env_close :: "(unit, 'w) call"

record ('w, 's, 'a) agent =
  agent_start :: "(unit, 'w) call"
  agent_step :: "'s \<Rightarrow> ('a, 'w) call"
  agent_experience :: "'s \<Rightarrow> 'a \<Rightarrow> real \<Rightarrow> 's \<Rightarrow> (unit, 'w) call"
  agent_stop :: "(unit, 'w) call"

text \<open>
  A preprocess entry \<^verbatim>\<open>(preprocess_cls, args, kwargs)\<close> is the constructor applied to
  its arguments: it wraps an environment into a new one.
\<close>

type_synonym ('w, 's, 'a) preprocess =
  "('w, 's, 'a) env \<Rightarrow> (('w, 's, 'a) env, 'w) call"

text \<open>The imported names: \<^verbatim>\<open>GymEnv(name, directory, callback)\<close>,
  \<^verbatim>\<open>ensure_directory(directory)\<close>, \<^verbatim>\<open>Experience(maxlen)\<close> with its \<^verbatim>\<open>append\<close> and
  \<^verbatim>\<open>save\<close> (the file name \<^verbatim>\<open>experience-<episode>.npz\<close> is given by the directory and
  the episode number), and \<^verbatim>\<open>np.save\<close> of the scores into the directory.\<close>

record ('w, 's, 'a) lib =
  GymEnv :: "string \<Rightarrow> string option \<Rightarrow> (('w, 's, 'a) env, 'w) call"
  ensure_directory :: "string \<Rightarrow> (unit, 'w) call"
  Experience :: "int \<Rightarrow> (unit, 'w) call"
  Experience_append_op :: "'s \<times> 'a \<times> real \<times> 's \<Rightarrow> (unit, 'w) call"
  Experience_save_op :: "string \<Rightarrow> int \<Rightarrow> (unit, 'w) call"
  np_save :: "string \<Rightarrow> real list \<Rightarrow> (unit, 'w) call"

subsection \<open>The trainer\<close>

text \<open>
  The fields of \<^verbatim>\<open>Trainer\<close> under their own names without the underscore
  (\<^verbatim>\<open>_states\<close> and \<^verbatim>\<open>_actions\<close> are never used). \<open>world\<close>, \<open>trace\<close> and \<open>fresh\<close> are
  not fields of the object: the world outside it, the trace of what was done so far,
  and the number of environment objects constructed so far, which gives the next one
  its identity.
\<close>

record ('w, 's, 'a) trainer =
  directory :: "string option"
  env_name :: string
  timesteps :: int
  epoch_size :: int
  videos :: int
  experience :: bool
  experience_maxlen :: int
  envs :: "('w, 's, 'a) env list"
  preprocesses :: "('w, 's, 'a) preprocess list"
  scores :: "real list"
  epoch :: int
  episode :: int
  timestep :: int
  running :: bool
  world :: 'w
  trace :: "event list"
  fresh :: nat

text \<open>Truth value of \<^verbatim>\<open>directory\<close>: \<^verbatim>\<open>None\<close> and the empty string are false.\<close>

definition truthy :: "string option \<Rightarrow> bool" where
  "truthy d = (case d of None \<Rightarrow> False | Some p \<Rightarrow> p \<noteq> [])"

definition path_of :: "string option \<Rightarrow> string" where
  "path_of d = (case d of None \<Rightarrow> [] | Some p \<Rightarrow> p)"

text \<open>\<^verbatim>\<open>Trainer.__init__\<close>: \<^verbatim>\<open>epoch_size or timesteps // 100\<close> takes the default when
  \<^verbatim>\<open>epoch_size\<close> is \<^verbatim>\<open>None\<close> or zero.\<close>

definition Trainer ::
  "('w, 's, 'a) lib \<Rightarrow> string option \<Rightarrow> string \<Rightarrow> int \<Rightarrow> int option \<Rightarrow> int \<Rightarrow> bool \<Rightarrow> int
     \<Rightarrow> 'w \<Rightarrow> exn + ('w, 's, 'a) trainer" where
  "Trainer L dir name ts es vs ex maxlen w =
     (case (if truthy dir then ensure_directory L (path_of dir) w else (Inr (), w)) of
        (Inl e, w') \<Rightarrow> Inl e
      | (Inr u, w') \<Rightarrow> Inr
          \<lparr> directory = dir, env_name = name, timesteps = ts,
            epoch_size = (case es of None \<Rightarrow> ts div 100
                          | Some n \<Rightarrow> if n = 0 then ts div 100 else n),
            videos = vs, experience = ex, experience_maxlen = maxlen,
            envs = [], preprocesses = [], scores = [], epoch = 0, episode = 0,
            timestep = 0, running = True, world = w', trace = [], fresh = 0 \<rparr>)"

text \<open>\<^verbatim>\<open>Trainer._video_callback(env_episode)\<close>: the argument is not used.\<close>

definition video_callback :: "('w, 's, 'a) trainer \<Rightarrow> int \<Rightarrow> bool" where
  "video_callback st env_episode =
     (if videos st = 0 then False else episode st mod videos st = 0)"

text \<open>\<^verbatim>\<open>Trainer.add_preprocess\<close>.\<close>

definition add_preprocess ::
  "('w, 's, 'a) preprocess \<Rightarrow> ('w, 's, 'a) trainer \<Rightarrow> exn + ('w, 's, 'a) trainer" where
  "add_preprocess p st =
     (if envs st \<noteq> [] then Inl (RuntimeError ''must add preprocesses before creating envs'')
      else Inr (st\<lparr>preprocesses := preprocesses st @ [p]\<rparr>))"

text \<open>\<^verbatim>\<open>Trainer.create_env\<close>. The loop over \<^verbatim>\<open>self._preprocesses\<close> wraps the environment
  and appends the wrapped environment to \<^verbatim>\<open>self._envs\<close> inside its body.\<close>

fun wrap_all ::
  "('w, 's, 'a) preprocess list \<Rightarrow> ('w, 's, 'a) env \<Rightarrow> ('w, 's, 'a) trainer
     \<Rightarrow> (exn + ('w, 's, 'a) env) \<times> ('w, 's, 'a) trainer" where
  "wrap_all [] en st = (Inr en, st)"
| "wrap_all (p # ps) en st =
     (case p en (world st) of
        (Inl e, w) \<Rightarrow> (Inl e, st\<lparr>world := w\<rparr>)
      | (Inr wrapped, w) \<Rightarrow>
          wrap_all ps (wrapped\<lparr>env_id := fresh st\<rparr>)
            (st\<lparr>world := w, fresh := fresh st + 1,
                envs := envs st @ [wrapped\<lparr>env_id := fresh st\<rparr>]\<rparr>))"

definition create_env ::
  "('w, 's, 'a) lib \<Rightarrow> ('w, 's, 'a) trainer
     \<Rightarrow> (exn + ('w, 's, 'a) env) \<times> ('w, 's, 'a) trainer" where
  "create_env L st =
     (case GymEnv L (env_name st) (directory st) (world st) of
        (Inl e, w) \<Rightarrow> (Inl e, st\<lparr>world := w\<rparr>)
      | (Inr base, w) \<Rightarrow>
          wrap_all (preprocesses st) (base\<lparr>env_id := fresh st\<rparr>)
            (st\<lparr>world := w, fresh := fresh st + 1\<rparr>))"

subsection \<open>Calling a collaborator\<close>

text \<open>A call runs the operation on the world and writes its outcome to the trace.\<close>

definition perform ::
  "('r, 'w) call \<Rightarrow> (exn + 'r \<Rightarrow> event) \<Rightarrow> ('w, 's, 'a) trainer
     \<Rightarrow> (exn + 'r) \<times> ('w, 's, 'a) trainer" where
  "perform f ev st =
     (case f (world st) of
        (r, w) \<Rightarrow> (r, st\<lparr>world := w, trace := trace st @ [ev r]\<rparr>))"

definition call_agent_start ::
  "('w, 's, 'a) agent \<Rightarrow> ('w, 's, 'a) trainer \<Rightarrow> (exn + unit) \<times> ('w, 's, 'a) trainer" where
  "call_agent_start ag = perform (agent_start ag) (\<lambda>r. Agent_start (raised r))"

definition call_agent_step ::
  "('w, 's, 'a) agent \<Rightarrow> 's \<Rightarrow> ('w, 's, 'a) trainer \<Rightarrow> (exn + 'a) \<times> ('w, 's, 'a) trainer" where
  "call_agent_step ag state = perform (agent_step ag state) (\<lambda>r. Agent_step (raised r))"

definition call_agent_experience ::
  "('w, 's, 'a) agent \<Rightarrow> 's \<Rightarrow> 'a \<Rightarrow> real \<Rightarrow> 's \<Rightarrow> ('w, 's, 'a) trainer
     \<Rightarrow> (exn + unit) \<times> ('w, 's, 'a) trainer" where
  "call_agent_experience ag state action reward successor =
     perform (agent_experience ag state action reward successor)
       (\<lambda>r. Agent_experience reward (raised r))"

definition call_agent_stop ::
  "('w, 's, 'a) agent \<Rightarrow> ('w, 's, 'a) trainer \<Rightarrow> (exn + unit) \<times> ('w, 's, 'a) trainer" where
  "call_agent_stop ag = perform (agent_stop ag) (\<lambda>r. Agent_stop (raised r))"

definition call_env_reset ::
  "('w, 's, 'a) env \<Rightarrow> ('w, 's, 'a) trainer \<Rightarrow> (exn + 's) \<times> ('w, 's, 'a) trainer" where
  "call_env_reset en st =
     perform (env_reset en (video_callback st)) (\<lambda>r. Env_reset (env_id en) (raised r)) st"

definition call_env_step ::
  "('w, 's, 'a) env \<Rightarrow> 'a \<Rightarrow> ('w, 's, 'a) trainer
     \<Rightarrow> (exn + 's \<times> real) \<times> ('w, 's, 'a) trainer" where
  "call_env_step en action st =
     perform (env_step en (video_callback st) action)
       (\<lambda>r. Env_step (env_id en) (map_sum id snd r)) st"

definition call_env_close ::
  "('w, 's, 'a) env \<Rightarrow> ('w, 's, 'a) trainer \<Rightarrow> (exn + unit) \<times> ('w, 's, 'a) trainer" where
  "call_env_close en = perform (env_close en) (\<lambda>r. Env_close (env_id en) (raised r))"

definition call_Experience ::
  "('w, 's, 'a) lib \<Rightarrow> ('w, 's, 'a) trainer \<Rightarrow> (exn + unit) \<times> ('w, 's, 'a) trainer" where
  "call_Experience L st =
     perform (Experience L (experience_maxlen st)) (\<lambda>r. Experience_new (raised r)) st"

definition call_experience_append ::
  "('w, 's, 'a) lib \<Rightarrow> 's \<times> 'a \<times> real \<times> 's \<Rightarrow> ('w, 's, 'a) trainer
     \<Rightarrow> (exn + unit) \<times> ('w, 's, 'a) trainer" where
  "call_experience_append L transition =
     perform (Experience_append_op L transition)
       (\<lambda>r. Experience_append (fst (snd (snd transition))) (raised r))"

definition call_experience_save ::
  "('w, 's, 'a) lib \<Rightarrow> int \<Rightarrow> ('w, 's, 'a) trainer \<Rightarrow> (exn + unit) \<times> ('w, 's, 'a) trainer" where
  "call_experience_save L ep st =
     perform (Experience_save_op L (path_of (directory st)) ep)
       (\<lambda>r. Experience_save ep (raised r)) st"

definition call_np_save ::
  "('w, 's, 'a) lib \<Rightarrow> ('w, 's, 'a) trainer \<Rightarrow> (exn + unit) \<times> ('w, 's, 'a) trainer" where
  "call_np_save L st =
     perform (np_save L (path_of (directory st)) (scores st))
       (\<lambda>r. Np_save (scores st) (raised r)) st"

definition emit :: "event \<Rightarrow> ('w, 's, 'a) trainer \<Rightarrow> ('w, 's, 'a) trainer" where
  "emit ev st = st\<lparr>trace := trace st @ [ev]\<rparr>"

subsection \<open>One episode: \<^verbatim>\<open>Trainer._run_episode\<close>\<close>

text \<open>\<^verbatim>\<open>self._directory and self._experience\<close>.\<close>

definition recording :: "('w, 's, 'a) trainer \<Rightarrow> bool" where
  "recording st = (truthy (directory st) \<and> experience st)"

text \<open>
  Lines 108 to 113, one pass through the body of \<^verbatim>\<open>while True\<close> up to the updates
  of the local variables: the agent chooses an action, the environment steps, the
  agent is told the transition, and the transition is recorded when recording is on.
  The result is the exception of the first call that raised, or the successor state
  and the reward.
\<close>

definition interaction ::
  "('w, 's, 'a) lib \<Rightarrow> ('w, 's, 'a) agent \<Rightarrow> ('w, 's, 'a) env \<Rightarrow> 's \<Rightarrow> ('w, 's, 'a) trainer
     \<Rightarrow> (exn + 's \<times> real) \<times> ('w, 's, 'a) trainer" where
  "interaction L ag en state st =
     (case call_agent_step ag state st of
        (Inl e, st1) \<Rightarrow> (Inl e, st1)
      | (Inr action, st1) \<Rightarrow>
     (case call_env_step en action st1 of
        (Inl e, st2) \<Rightarrow> (Inl e, st2)
      | (Inr (successor, reward), st2) \<Rightarrow>
     (case call_agent_experience ag state action reward successor st2 of
        (Inl e, st3) \<Rightarrow> (Inl e, st3)
      | (Inr u, st3) \<Rightarrow>
          if recording st3 then
            (case call_experience_append L (state, action, reward, successor) st3 of
               (Inl e, st4) \<Rightarrow> (Inl e, st4)
             | (Inr u, st4) \<Rightarrow> (Inr (successor, reward), st4))
          else (Inr (successor, reward), st3))))"

text \<open>
  The loop of lines 107 to 116. It has no exit of its own: it ends when a call
  raises, and the result is the exception, the score accumulated so far and the state.
  When no call ever raises, the loop does not return (\<open>None\<close>).
\<close>

partial_function (option) episode_loop ::
  "('w, 's, 'a) lib \<Rightarrow> ('w, 's, 'a) agent \<Rightarrow> ('w, 's, 'a) env \<Rightarrow> 's \<Rightarrow> real
     \<Rightarrow> ('w, 's, 'a) trainer \<Rightarrow> (exn \<times> real \<times> ('w, 's, 'a) trainer) option" where
  "episode_loop L ag en state score st =
     (case interaction L ag en state st of
        (Inl e, st1) \<Rightarrow> Some (e, score, st1)
      | (Inr (successor, reward), st1) \<Rightarrow>
          episode_loop L ag en successor (score + reward)
            (st1\<lparr>timestep := timestep st1 + 1\<rparr>))"

declare episode_loop.simps [code]

text \<open>The \<^verbatim>\<open>try\<close> block: \<^verbatim>\<open>env.reset()\<close>, then the loop.\<close>

definition try_block ::
  "('w, 's, 'a) lib \<Rightarrow> ('w, 's, 'a) agent \<Rightarrow> ('w, 's, 'a) env \<Rightarrow> ('w, 's, 'a) trainer
     \<Rightarrow> (exn \<times> real \<times> ('w, 's, 'a) trainer) option" where
  "try_block L ag en st =
     (case call_env_reset en st of
        (Inl e, st1) \<Rightarrow> Some (e, 0, st1)
      | (Inr state, st1) \<Rightarrow> episode_loop L ag en state 0 st1)"

text \<open>What follows the \<^verbatim>\<open>try\<close> statement once \<^verbatim>\<open>StopEpisode\<close> was caught.\<close>

definition after_episode ::
  "('w, 's, 'a) lib \<Rightarrow> ('w, 's, 'a) agent \<Rightarrow> int \<Rightarrow> real \<Rightarrow> ('w, 's, 'a) trainer
     \<Rightarrow> (exn + real) \<times> ('w, 's, 'a) trainer" where
  "after_episode L ag ep score st =
     (case call_agent_stop ag st of
        (Inl e, st1) \<Rightarrow> (Inl e, st1)
      | (Inr u, st1) \<Rightarrow>
          if recording st1 then
            (case call_experience_save L ep st1 of
               (Inl e, st2) \<Rightarrow> (Inl e, st2)
             | (Inr u, st2) \<Rightarrow> (Inr score, st2))
          else (Inr score, st1))"

text \<open>Lines 101 to 104, before the \<^verbatim>\<open>try\<close> statement.\<close>

definition start_episode ::
  "('w, 's, 'a) lib \<Rightarrow> ('w, 's, 'a) agent \<Rightarrow> ('w, 's, 'a) trainer
     \<Rightarrow> (exn + unit) \<times> ('w, 's, 'a) trainer" where
  "start_episode L ag st =
     (case (if recording st then call_Experience L st else (Inr (), st)) of
        (Inl e, st1) \<Rightarrow> (Inl e, st1)
      | (Inr u, st1) \<Rightarrow> call_agent_start ag st1)"

text \<open>\<^verbatim>\<open>Trainer._run_episode\<close>: \<^verbatim>\<open>except StopEpisode: pass\<close> lets every other exception
  of the \<^verbatim>\<open>try\<close> block through.\<close>

definition run_episode_inner ::
  "('w, 's, 'a) lib \<Rightarrow> ('w, 's, 'a) env \<Rightarrow> ('w, 's, 'a) agent \<Rightarrow> int \<Rightarrow> ('w, 's, 'a) trainer
     \<Rightarrow> ((exn + real) \<times> ('w, 's, 'a) trainer) option" where
  "run_episode_inner L en ag ep st =
     (case start_episode L ag st of
        (Inl e, st1) \<Rightarrow> Some (Inl e, st1)
      | (Inr u, st1) \<Rightarrow>
     (case try_block L ag en st1 of
        None \<Rightarrow> None
      | Some (e, score, st2) \<Rightarrow>
          if e = StopEpisode then Some (after_episode L ag ep score st2)
          else Some (Inl e, st2)))"

subsection \<open>Epochs and shutdown\<close>

text \<open>
  The slice \<^verbatim>\<open>xs[k:]\<close> of Python: a negative \<open>k\<close> counts from the end, and a start
  outside the list is clipped. \<^verbatim>\<open>self._scores[-self._epoch_size:]\<close> is
  \<open>slice_from (- epoch_size)\<close>.
\<close>

definition slice_from :: "int \<Rightarrow> 'x list \<Rightarrow> 'x list" where
  "slice_from k xs =
     (if k < 0 then drop (nat (max 0 (int (length xs) + k))) xs else drop (nat k) xs)"

text \<open>\<^verbatim>\<open>sum(score) / len(score)\<close> raises \<^verbatim>\<open>ZeroDivisionError\<close> on the empty list.\<close>

definition mean :: "real list \<Rightarrow> exn + real" where
  "mean xs = (if xs = [] then Inl ZeroDivisionError else Inr (sum_list xs / real (length xs)))"

text \<open>\<^verbatim>\<open>Trainer._next_epoch\<close>.\<close>

definition next_epoch ::
  "('w, 's, 'a) trainer \<Rightarrow> (exn + unit) \<times> ('w, 's, 'a) trainer" where
  "next_epoch st =
     (let st1 = st\<lparr>epoch := epoch st + 1\<rparr> in
      case mean (slice_from (- epoch_size st1) (scores st1)) of
        Inl e \<Rightarrow> (Inl e, st1)
      | Inr score \<Rightarrow> (Inr (), emit (Print_epoch (epoch st1) (timestep st1) score) st1))"

text \<open>\<^verbatim>\<open>Trainer._store_scores\<close>.\<close>

definition store_scores ::
  "('w, 's, 'a) lib \<Rightarrow> ('w, 's, 'a) trainer \<Rightarrow> (exn + unit) \<times> ('w, 's, 'a) trainer" where
  "store_scores L st = (if truthy (directory st) then call_np_save L st else (Inr (), st))"

text \<open>The loop of \<^verbatim>\<open>Trainer._stop_training\<close>: each environment is closed under its own
  lock, which is released also when \<^verbatim>\<open>close\<close> raises.\<close>

fun close_all ::
  "('w, 's, 'a) env list \<Rightarrow> ('w, 's, 'a) trainer \<Rightarrow> (exn + unit) \<times> ('w, 's, 'a) trainer" where
  "close_all [] st = (Inr (), st)"
| "close_all (en # ens) st =
     (case call_env_close en (emit (Acquire_env_lock (env_id en)) st) of
        (Inl e, st1) \<Rightarrow> (Inl e, emit (Release_env_lock (env_id en)) st1)
      | (Inr u, st1) \<Rightarrow> close_all ens (emit (Release_env_lock (env_id en)) st1))"

text \<open>\<^verbatim>\<open>Trainer._stop_training\<close>.\<close>

definition stop_training ::
  "('w, 's, 'a) lib \<Rightarrow> ('w, 's, 'a) trainer \<Rightarrow> (exn + unit) \<times> ('w, 's, 'a) trainer" where
  "stop_training L st =
     (let st1 = emit Set_running_False (st\<lparr>running := False\<rparr>) in
      case close_all (envs st1) st1 of
        (Inl e, st2) \<Rightarrow> (Inl e, st2)
      | (Inr u, st2) \<Rightarrow> store_scores L st2)"

subsection \<open>\<^verbatim>\<open>Trainer.run_episode\<close>, statement by statement\<close>

text \<open>Lines 87 to 89: the episode number is taken under the session lock.\<close>

definition allocate_episode ::
  "('w, 's, 'a) trainer \<Rightarrow> int \<times> ('w, 's, 'a) trainer" where
  "allocate_episode st =
     (let st1 = emit Acquire_lock st in
      (episode st1, emit Release_lock (st1\<lparr>episode := episode st1 + 1\<rparr>)))"

text \<open>Lines 90 and 91: the episode runs under the lock of its environment.\<close>

definition locked_episode ::
  "('w, 's, 'a) lib \<Rightarrow> ('w, 's, 'a) agent \<Rightarrow> ('w, 's, 'a) env \<Rightarrow> int \<Rightarrow> ('w, 's, 'a) trainer
     \<Rightarrow> ((exn + real) \<times> ('w, 's, 'a) trainer) option" where
  "locked_episode L ag en ep st =
     (case run_episode_inner L en ag ep (emit (Acquire_env_lock (env_id en)) st) of
        None \<Rightarrow> None
      | Some (r, st1) \<Rightarrow> Some (r, emit (Release_env_lock (env_id en)) st1))"

text \<open>Line 92: \<^verbatim>\<open>self._scores.append(score)\<close>.\<close>

definition append_score :: "real \<Rightarrow> ('w, 's, 'a) trainer \<Rightarrow> ('w, 's, 'a) trainer" where
  "append_score score st = emit (Scores_append score) (st\<lparr>scores := scores st @ [score]\<rparr>)"

text \<open>Lines 94 to 98, the body of the second \<^verbatim>\<open>with self._lock\<close>.\<close>

definition epoch_and_stop ::
  "('w, 's, 'a) lib \<Rightarrow> ('w, 's, 'a) trainer \<Rightarrow> (exn + unit) \<times> ('w, 's, 'a) trainer" where
  "epoch_and_stop L st =
     (let epoch_end = (epoch st + 1) * epoch_size st in
      case (if running st \<and> timestep st \<ge> epoch_end then next_epoch st else (Inr (), st)) of
        (Inl e, st1) \<Rightarrow> (Inl e, st1)
      | (Inr u, st1) \<Rightarrow>
          if timestep st1 \<ge> timesteps st1 then stop_training L st1 else (Inr (), st1))"

text \<open>Lines 93 to 98: the lock is released on every way out of the block.\<close>

definition locked_checks ::
  "('w, 's, 'a) lib \<Rightarrow> ('w, 's, 'a) trainer \<Rightarrow> (exn + unit) \<times> ('w, 's, 'a) trainer" where
  "locked_checks L st =
     (case epoch_and_stop L (emit Acquire_lock st) of
        (r, st1) \<Rightarrow> (r, emit Release_lock st1))"

text \<open>The whole method, for a caller that nothing interleaves with.\<close>

definition run_episode ::
  "('w, 's, 'a) lib \<Rightarrow> ('w, 's, 'a) agent \<Rightarrow> ('w, 's, 'a) env \<Rightarrow> ('w, 's, 'a) trainer
     \<Rightarrow> ((exn + unit) \<times> ('w, 's, 'a) trainer) option" where
  "run_episode L ag en st =
     (if \<not> running st then Some (Inl StopTraining, st)
      else
        (case allocate_episode st of
           (ep, st1) \<Rightarrow>
        (case locked_episode L ag en ep st1 of
           None \<Rightarrow> None
         | Some (Inl e, st2) \<Rightarrow> Some (Inl e, st2)
         | Some (Inr score, st2) \<Rightarrow> Some (locked_checks L (append_score score st2)))))"

subsection \<open>Several callers\<close>

text \<open>
  A caller inside \<^verbatim>\<open>run_episode\<close> is at one of its statements; \<^verbatim>\<open>episode\<close> and
  \<^verbatim>\<open>score\<close> are its local variables. One step of a caller runs one statement, where
  a \<^verbatim>\<open>with\<close> block counts as one statement (the block runs without interruption,
  which is one of the schedules the locks allow). A schedule names the caller that
  takes the next step.
\<close>

datatype pc =
    At_check
  | At_allocate
  | At_episode int
  | At_append real
  | At_checks
  | Returned
  | Raised exn
  | Diverged

definition thread_step ::
  "('w, 's, 'a) lib \<Rightarrow> ('w, 's, 'a) agent \<Rightarrow> ('w, 's, 'a) env \<Rightarrow> pc \<Rightarrow> ('w, 's, 'a) trainer
     \<Rightarrow> pc \<times> ('w, 's, 'a) trainer" where
  "thread_step L ag en p st =
     (case p of
        At_check \<Rightarrow> if \<not> running st then (Raised StopTraining, st) else (At_allocate, st)
      | At_allocate \<Rightarrow> (case allocate_episode st of (ep, st1) \<Rightarrow> (At_episode ep, st1))
      | At_episode ep \<Rightarrow>
          (case locked_episode L ag en ep st of
             None \<Rightarrow> (Diverged, st)
           | Some (Inl e, st1) \<Rightarrow> (Raised e, st1)
           | Some (Inr score, st1) \<Rightarrow> (At_append score, st1))
      | At_append score \<Rightarrow> (At_checks, append_score score st)
      | At_checks \<Rightarrow>
          (case locked_checks L st of
             (Inl e, st1) \<Rightarrow> (Raised e, st1)
           | (Inr u, st1) \<Rightarrow> (Returned, st1))
      | Returned \<Rightarrow> (Returned, st)
      | Raised e \<Rightarrow> (Raised e, st)
      | Diverged \<Rightarrow> (Diverged, st))"

fun interleave ::
  "('w, 's, 'a) lib \<Rightarrow> nat list \<Rightarrow> (('w, 's, 'a) agent \<times> ('w, 's, 'a) env \<times> pc) list
     \<Rightarrow> ('w, 's, 'a) trainer
     \<Rightarrow> (('w, 's, 'a) agent \<times> ('w, 's, 'a) env \<times> pc) list \<times> ('w, 's, 'a) trainer" where
  "interleave L [] ths st = (ths, st)"
| "interleave L (i # sched) ths st =
     (if i < length ths then
        (case ths ! i of
           (ag, en, p) \<Rightarrow>
             (case thread_step L ag en p st of
                (p', st') \<Rightarrow> interleave L sched (ths[i := (ag, en, p')]) st'))
      else interleave L sched ths st)"

text \<open>Calls made one after the other by a caller that goes on whatever a call
  returned or raised; \<open>None\<close> when one of them does not return.\<close>

fun run_calls ::
  "('w, 's, 'a) lib \<Rightarrow> (('w, 's, 'a) agent \<times> ('w, 's, 'a) env) list \<Rightarrow> ('w, 's, 'a) trainer
     \<Rightarrow> ('w, 's, 'a) trainer option" where
  "run_calls L [] st = Some st"
| "run_calls L ((ag, en) # cs) st =
     (case run_episode L ag en st of
        None \<Rightarrow> None
      | Some (r, st1) \<Rightarrow> run_calls L cs st1)"

subsection \<open>Reading a trace\<close>

text \<open>The rewards of the loop iterations that ran to their end: the last call of an
  iteration is \<^verbatim>\<open>experience.append\<close> when transitions are recorded and
  \<^verbatim>\<open>agent.experience\<close> otherwise.\<close>

fun completed_step :: "bool \<Rightarrow> event \<Rightarrow> real option" where
  "completed_step rec (Experience_append r None) = (if rec then Some r else None)"
| "completed_step rec (Agent_experience r None) = (if rec then None else Some r)"
| "completed_step rec ev = None"

fun step_rewards :: "bool \<Rightarrow> event list \<Rightarrow> real list" where
  "step_rewards rec [] = []"
| "step_rewards rec (ev # tr) =
     (case completed_step rec ev of
        None \<Rightarrow> step_rewards rec tr
      | Some r \<Rightarrow> r # step_rewards rec tr)"

text \<open>The part of a later trace that is new.\<close>

definition new_events :: "('w, 's, 'a) trainer \<Rightarrow> ('w, 's, 'a) trainer \<Rightarrow> event list" where
  "new_events st st' = drop (length (trace st)) (trace st')"

text \<open>How often \<^verbatim>\<open>_stop_training\<close> was entered.\<close>

definition shutdowns :: "event list \<Rightarrow> nat" where
  "shutdowns tr = count_list tr Set_running_False"

text \<open>Whether the session lock is held after a trace, and whether every append to the
  scores in a trace happens while it is held.\<close>

fun lock_held :: "bool \<Rightarrow> event list \<Rightarrow> bool" where
  "lock_held h [] = h"
| "lock_held h (Acquire_lock # tr) = lock_held True tr"
| "lock_held h (Release_lock # tr) = lock_held False tr"
| "lock_held h (ev # tr) = lock_held h tr"


subsection \<open>Small collaborators for concrete runs\<close>

text \<open>An environment whose episodes last \<open>n\<close> steps of reward \<open>r\<close> each and end with
  the exception \<open>e\<close>. Its world counts the steps since the last reset and lists what
  the video callback answered at each reset.\<close>

definition fixed_env :: "nat \<Rightarrow> real \<Rightarrow> exn \<Rightarrow> (nat \<times> bool list, unit, unit) env" where
  "fixed_env n r e =
     \<lparr> env_id = 0,
       env_reset = (\<lambda>cb w. (Inr (), (0, snd w @ [cb (int (length (snd w)))]))),
       env_step = (\<lambda>cb a w. if fst w < n then (Inr ((), r), (Suc (fst w), snd w))
                             else (Inl e, w)),
       env_close = (\<lambda>w. (Inr (), w)) \<rparr>"

definition idle_agent :: "('w, unit, unit) agent" where
  "idle_agent =
     \<lparr> agent_start = (\<lambda>w. (Inr (), w)),
       agent_step = (\<lambda>s w. (Inr (), w)),
       agent_experience = (\<lambda>s a r s' w. (Inr (), w)),
       agent_stop = (\<lambda>w. (Inr (), w)) \<rparr>"

definition fixed_lib :: "nat \<Rightarrow> real \<Rightarrow> exn \<Rightarrow> (nat \<times> bool list, unit, unit) lib" where
  "fixed_lib n r e =
     \<lparr> GymEnv = (\<lambda>name dir w. (Inr (fixed_env n r e), w)),
       ensure_directory = (\<lambda>d w. (Inr (), w)),
       Experience = (\<lambda>maxlen w. (Inr (), w)),
       Experience_append_op = (\<lambda>t w. (Inr (), w)),
       Experience_save_op = (\<lambda>d ep w. (Inr (), w)),
       np_save = (\<lambda>d xs w. (Inr (), w)) \<rparr>"

definition plain_wrapper :: "('w, 's, 'a) preprocess" where
  "plain_wrapper en w = (Inr en, w)"

text \<open>A session without a directory: \<^verbatim>\<open>Trainer(None, 'env', ts, es, vs)\<close>.\<close>

definition session :: "int \<Rightarrow> int option \<Rightarrow> int \<Rightarrow> (nat \<times> bool list, unit, unit) trainer" where
  "session ts es vs =
     \<lparr> directory = None, env_name = ''env'', timesteps = ts,
       epoch_size = (case es of None \<Rightarrow> ts div 100 | Some n \<Rightarrow> if n = 0 then ts div 100 else n),
       videos = vs, experience = False, experience_maxlen = 50000,
       envs = [], preprocesses = [], scores = [], epoch = 0, episode = 0,
       timestep = 0, running = True, world = (0, []), trace = [], fresh = 0 \<rparr>"

text \<open>A stopped session, and the identities of the environments a trace closes.\<close>

definition stopped_session :: "(nat \<times> bool list, unit, unit) trainer" where
  "stopped_session = (session 3 None 0)\<lparr>running := False\<rparr>"

fun closed_ids :: "event list \<Rightarrow> nat list" where
  "closed_ids [] = []"
| "closed_ids (Env_close i x # tr) = i # closed_ids tr"
| "closed_ids (ev # tr) = closed_ids tr"

subsection \<open>How one state follows from another\<close>

text \<open>\<open>grows\<close>: only the world changed and the trace got longer. \<open>progresses\<close>: in
  addition the timestep advanced by the number of completed steps in the new part of
  the trace.\<close>

definition grows :: "('w, 's, 'a) trainer \<Rightarrow> event list \<Rightarrow> ('w, 's, 'a) trainer \<Rightarrow> bool" where
  "grows st new st' = (\<exists>w. st' = st\<lparr>world := w, trace := trace st @ new\<rparr>)"

definition progresses ::
  "('w, 's, 'a) trainer \<Rightarrow> event list \<Rightarrow> ('w, 's, 'a) trainer \<Rightarrow> bool" where
  "progresses st new st' =
     (\<exists>w. st' = st\<lparr>world := w, trace := trace st @ new,
                   timestep := timestep st + int (length (step_rewards (recording st) new))\<rparr>)"

text \<open>The events of \<^verbatim>\<open>_run_episode\<close> up to the end of the \<^verbatim>\<open>try\<close> block, those
  after it, and those of the second \<^verbatim>\<open>with self._lock\<close> block.\<close>

fun episode_event :: "event \<Rightarrow> bool" where
  "episode_event (Experience_new x) = True"
| "episode_event (Agent_start x) = True"
| "episode_event (Env_reset i x) = True"
| "episode_event (Agent_step x) = True"
| "episode_event (Env_step i x) = True"
| "episode_event (Agent_experience r x) = True"
| "episode_event (Experience_append r x) = True"
| "episode_event ev = False"

fun after_event :: "event \<Rightarrow> bool" where
  "after_event (Agent_stop x) = True"
| "after_event (Experience_save ep x) = True"
| "after_event ev = False"

definition inner_event :: "event \<Rightarrow> bool" where
  "inner_event ev = (episode_event ev \<or> after_event ev)"

fun check_event :: "event \<Rightarrow> bool" where
  "check_event (Print_epoch e t x) = True"
| "check_event Set_running_False = True"
| "check_event (Acquire_env_lock i) = True"
| "check_event (Release_env_lock i) = True"
| "check_event (Env_close i x) = True"
| "check_event (Np_save xs x) = True"
| "check_event ev = False"

text \<open>The second locked block changes the epoch, the running flag, the world and the trace.\<close>

definition checked :: "('w, 's, 'a) trainer \<Rightarrow> event list \<Rightarrow> ('w, 's, 'a) trainer \<Rightarrow> bool" where
  "checked st new st' =
     (\<exists>w ep. st' = st\<lparr>world := w, trace := trace st @ new, epoch := ep,
                       running := (running st \<and> shutdowns new = 0)\<rparr>
             \<and> list_all check_event new \<and> shutdowns new \<le> 1)"

text \<open>The events of \<^verbatim>\<open>_stop_training\<close>.\<close>

fun shutdown_event :: "event \<Rightarrow> bool" where
  "shutdown_event Set_running_False = True"
| "shutdown_event (Acquire_env_lock i) = True"
| "shutdown_event (Release_env_lock i) = True"
| "shutdown_event (Env_close i x) = True"
| "shutdown_event (Np_save xs x) = True"
| "shutdown_event ev = False"

text \<open>The last \<open>n\<close> entries of a list, all of them when there are fewer.\<close>

definition last_entries :: "nat \<Rightarrow> 'x list \<Rightarrow> 'x list" where
  "last_entries n xs = drop (length xs - n) xs"

text \<open>
  Two workers:
  \<^verbatim>\<open>t = Trainer(None, 'env', 2, epoch_size=2); t.add_preprocess(P)\<close>, then each worker
  takes its environment from \<^verbatim>\<open>t.create_env()\<close> and is about to call
  \<^verbatim>\<open>t.run_episode\<close>.
\<close>

definition worker_session :: "(nat \<times> bool list, unit, unit) trainer" where
  "worker_session =
     snd (create_env (fixed_lib 2 1 StopEpisode)
       (snd (create_env (fixed_lib 2 1 StopEpisode)
         ((session 2 (Some 2) 0)\<lparr>preprocesses := [plain_wrapper]\<rparr>))))"

definition workers ::
  "((nat \<times> bool list, unit, unit) agent \<times> (nat \<times> bool list, unit, unit) env \<times> pc) list" where
  "workers = map (\<lambda>en. (idle_agent, en, At_check)) (envs worker_session)"


fun is_print :: "event \<Rightarrow> bool" where
  "is_print (Print_epoch e t x) = True"
| "is_print ev = False"

text \<open>Whether every append to the scores in a trace happens while the session lock
  is free.\<close>

fun appends_unlocked :: "bool \<Rightarrow> event list \<Rightarrow> bool" where
  "appends_unlocked h [] = True"
| "appends_unlocked h (Acquire_lock # tr) = appends_unlocked True tr"
| "appends_unlocked h (Release_lock # tr) = appends_unlocked False tr"
| "appends_unlocked h (Scores_append x # tr) = (\<not> h \<and> appends_unlocked h tr)"
| "appends_unlocked h (ev # tr) = appends_unlocked h tr"

text \<open>The scores that the episodes of a sequence of calls return, in the order of
  the calls: what \<^verbatim>\<open>_run_episode\<close> returned in each call that was let in and whose
  episode returned.\<close>

fun completed_scores ::
  "('w, 's, 'a) lib \<Rightarrow> (('w, 's, 'a) agent \<times> ('w, 's, 'a) env) list \<Rightarrow> ('w, 's, 'a) trainer
     \<Rightarrow> real list" where
  "completed_scores L [] st = []"
| "completed_scores L ((ag, en) # cs) st =
     (if \<not> running st then completed_scores L cs st
      else
        (case locked_episode L ag en (fst (allocate_episode st)) (snd (allocate_episode st)) of
           None \<Rightarrow> []
         | Some (Inl e, st1) \<Rightarrow> completed_scores L cs st1
         | Some (Inr score, st1) \<Rightarrow>
             score # completed_scores L cs (snd (locked_checks L (append_score score st1)))))"

text \<open>The scores a trace appends.\<close>

fun appended :: "event list \<Rightarrow> real list" where
  "appended [] = []"
| "appended (Scores_append x # tr) = x # appended tr"
| "appended (ev # tr) = appended tr"

text \<open>
  What one call, or several calls one after the other, do to a session: the trace gets
  longer, the timestep advances by the completed steps of the new part, the
  configuration and the registry stay, \<^verbatim>\<open>running\<close> can only go from true to false and
  does so together with the one entry into \<^verbatim>\<open>_stop_training\<close>, the session lock is
  free at the end, every append to the scores happened while it was free, and the
  scores grew by what the trace appended.
\<close>

definition session_step ::
  "('w, 's, 'a) trainer \<Rightarrow> event list \<Rightarrow> ('w, 's, 'a) trainer \<Rightarrow> bool" where
  "session_step st new st' =
     (trace st' = trace st @ new
      \<and> timestep st' = timestep st + int (length (step_rewards (recording st) new))
      \<and> directory st' = directory st \<and> experience st' = experience st
      \<and> timesteps st' = timesteps st \<and> epoch_size st' = epoch_size st
      \<and> videos st' = videos st \<and> envs st' = envs st \<and> preprocesses st' = preprocesses st
      \<and> running st' = (running st \<and> shutdowns new = 0)
      \<and> shutdowns new \<le> (if running st then 1 else 0)
      \<and> lock_held False new = False \<and> appends_unlocked False new
      \<and> scores st' = scores st @ appended new)"

text \<open>The state after a call whose episode raised, and after a call whose episode
  returned, in terms of the events of the episode and of the second locked block.\<close>

definition faulted_call ::
  "('w, 's, 'a) trainer \<Rightarrow> nat \<Rightarrow> event list \<Rightarrow> 'w \<Rightarrow> ('w, 's, 'a) trainer" where
  "faulted_call st i inner w =
     st\<lparr>episode := episode st + 1, world := w,
        trace := trace st @ [Acquire_lock, Release_lock, Acquire_env_lock i] @ inner
                   @ [Release_env_lock i],
        timestep := timestep st + int (length (step_rewards (recording st) inner))\<rparr>"

definition completed_call ::
  "('w, 's, 'a) trainer \<Rightarrow> nat \<Rightarrow> event list \<Rightarrow> event list \<Rightarrow> 'w \<Rightarrow> int \<Rightarrow> ('w, 's, 'a) trainer" where
  "completed_call st i inner checks w ep =
     st\<lparr>episode := episode st + 1, world := w,
        trace := trace st @ [Acquire_lock, Release_lock, Acquire_env_lock i] @ inner
                   @ [Release_env_lock i,
                      Scores_append (sum_list (step_rewards (recording st) inner)),
                      Acquire_lock] @ checks @ [Release_lock],
        timestep := timestep st + int (length (step_rewards (recording st) inner)),
        scores := scores st @ [sum_list (step_rewards (recording st) inner)],
        epoch := ep, running := (shutdowns checks = 0)\<rparr>"

subsection \<open>A fault raised by the agent or the environment\<close>






subsection \<open>Several callers, lock by lock\<close>

text \<open>
  A second model of several callers, in which a \<^verbatim>\<open>with\<close> block is not one step.
  \<^verbatim>\<open>self._lock\<close> and \<^verbatim>\<open>env.lock\<close> are locks of \<^verbatim>\<open>threading\<close>: a caller that
  wants a lock which some caller holds waits, and its step changes nothing. Each
  caller keeps the list of the locks it holds.

  The points of a caller, with its local variables \<^verbatim>\<open>episode\<close>, \<^verbatim>\<open>state\<close> and
  \<^verbatim>\<open>score\<close>:
  \<^item> \<open>F_check\<close>: line 85;
  \<^item> \<open>F_lock\<close>: line 87, before the lock is taken; \<open>F_allocate\<close>: lines 88 and 89 and the
    end of the block;
  \<^item> \<open>F_env_lock\<close>: line 90, before the lock of the environment is taken;
  \<^item> \<open>F_start\<close>: lines 101 to 104; \<open>F_reset\<close>: line 106;
  \<^item> \<open>F_pass\<close>: lines 108 to 115, one pass of the loop up to \<^verbatim>\<open>score += reward\<close>;
  \<^item> \<open>F_load\<close> and \<open>F_store\<close>: line 116, \<^verbatim>\<open>self._timestep += 1\<close>. The statement reads
    the attribute, adds one and writes the attribute, and another thread can run
    between the read and the write; \<open>F_store\<close> carries the value that was read;
  \<^item> \<open>F_after\<close>: lines 120 to 123 and the end of the block of line 90;
  \<^item> \<open>F_append\<close>: line 92. \<^verbatim>\<open>list.append\<close> is one step: the interpreter does not
    switch threads inside it;
  \<^item> \<open>F_lock2\<close>: line 93, before the lock is taken; \<open>F_epoch\<close>: lines 94 to 96;
    \<open>F_stop_test\<close>: line 97;
  \<^item> \<open>F_stop\<close>: line 133; \<open>F_close k\<close>: lines 134 to 136 for the environment of index
    \<open>k\<close>, its lock taken, \<^verbatim>\<open>close\<close> called and the lock released in one step once the
    lock is free; \<open>F_store_scores\<close>: line 137 and the end of the block of line 93;
  \<^item> \<open>F_returned\<close>: the call returned; \<open>F_raised\<close>: it raised before line 92;
    \<open>F_raised_late\<close>: it raised in the block of line 93.
\<close>

datatype lock = Session_lock | Env_lock nat

datatype 's fpc =
    F_check
  | F_lock
  | F_allocate
  | F_env_lock int
  | F_start int
  | F_reset int
  | F_pass int 's real
  | F_load int 's real
  | F_store int 's real int
  | F_after int real
  | F_append real
  | F_lock2
  | F_epoch
  | F_stop_test
  | F_stop
  | F_close nat
  | F_store_scores
  | F_returned
  | F_raised exn
  | F_raised_late exn

record ('w, 's, 'a) caller =
  its_agent :: "('w, 's, 'a) agent"
  its_env :: "('w, 's, 'a) env"
  point :: "'s fpc"
  held :: "lock list"

text \<open>A caller that is about to call \<^verbatim>\<open>run_episode(agent, env)\<close>.\<close>

definition caller :: "('w, 's, 'a) agent \<Rightarrow> ('w, 's, 'a) env \<Rightarrow> ('w, 's, 'a) caller" where
  "caller ag en = \<lparr> its_agent = ag, its_env = en, point = F_check, held = [] \<rparr>"

text \<open>The end of a \<^verbatim>\<open>with\<close> block, also when an exception leaves it: the lock is
  released and the caller goes on to \<open>p\<close>.\<close>

definition leave_env ::
  "'s fpc \<Rightarrow> ('w, 's, 'a) caller \<Rightarrow> ('w, 's, 'a) trainer
     \<Rightarrow> ('w, 's, 'a) caller \<times> ('w, 's, 'a) trainer" where
  "leave_env p c st =
     (c\<lparr>point := p, held := remove1 (Env_lock (env_id (its_env c))) (held c)\<rparr>,
      emit (Release_env_lock (env_id (its_env c))) st)"

definition leave_session ::
  "'s fpc \<Rightarrow> ('w, 's, 'a) caller \<Rightarrow> ('w, 's, 'a) trainer
     \<Rightarrow> ('w, 's, 'a) caller \<times> ('w, 's, 'a) trainer" where
  "leave_session p c st =
     (c\<lparr>point := p, held := remove1 Session_lock (held c)\<rparr>, emit Release_lock st)"

text \<open>One step of a caller; \<open>busy\<close> tells which locks are held by some caller.\<close>

definition fine_step ::
  "('w, 's, 'a) lib \<Rightarrow> (lock \<Rightarrow> bool) \<Rightarrow> ('w, 's, 'a) caller \<Rightarrow> ('w, 's, 'a) trainer
     \<Rightarrow> ('w, 's, 'a) caller \<times> ('w, 's, 'a) trainer" where
  "fine_step L busy c st =
     (case point c of
        F_check \<Rightarrow>
          if \<not> running st then (c\<lparr>point := F_raised StopTraining\<rparr>, st)
          else (c\<lparr>point := F_lock\<rparr>, st)
      | F_lock \<Rightarrow>
          if busy Session_lock then (c, st)
          else (c\<lparr>point := F_allocate, held := Session_lock # held c\<rparr>, emit Acquire_lock st)
      | F_allocate \<Rightarrow>
          leave_session (F_env_lock (episode st)) c (st\<lparr>episode := episode st + 1\<rparr>)
      | F_env_lock ep \<Rightarrow>
          if busy (Env_lock (env_id (its_env c))) then (c, st)
          else (c\<lparr>point := F_start ep, held := Env_lock (env_id (its_env c)) # held c\<rparr>,
                emit (Acquire_env_lock (env_id (its_env c))) st)
      | F_start ep \<Rightarrow>
          (case start_episode L (its_agent c) st of
             (Inl e, st1) \<Rightarrow> leave_env (F_raised e) c st1
           | (Inr u, st1) \<Rightarrow> (c\<lparr>point := F_reset ep\<rparr>, st1))
      | F_reset ep \<Rightarrow>
          (case call_env_reset (its_env c) st of
             (Inl e, st1) \<Rightarrow>
               if e = StopEpisode then (c\<lparr>point := F_after ep 0\<rparr>, st1)
               else leave_env (F_raised e) c st1
           | (Inr state, st1) \<Rightarrow> (c\<lparr>point := F_pass ep state 0\<rparr>, st1))
      | F_pass ep state score \<Rightarrow>
          (case interaction L (its_agent c) (its_env c) state st of
             (Inl e, st1) \<Rightarrow>
               if e = StopEpisode then (c\<lparr>point := F_after ep score\<rparr>, st1)
               else leave_env (F_raised e) c st1
           | (Inr (successor, reward), st1) \<Rightarrow>
               (c\<lparr>point := F_load ep successor (score + reward)\<rparr>, st1))
      | F_load ep state score \<Rightarrow> (c\<lparr>point := F_store ep state score (timestep st)\<rparr>, st)
      | F_store ep state score t \<Rightarrow>
          (c\<lparr>point := F_pass ep state score\<rparr>, st\<lparr>timestep := t + 1\<rparr>)
      | F_after ep score \<Rightarrow>
          (case after_episode L (its_agent c) ep score st of
             (Inl e, st1) \<Rightarrow> leave_env (F_raised e) c st1
           | (Inr result, st1) \<Rightarrow> leave_env (F_append result) c st1)
      | F_append score \<Rightarrow> (c\<lparr>point := F_lock2\<rparr>, append_score score st)
      | F_lock2 \<Rightarrow>
          if busy Session_lock then (c, st)
          else (c\<lparr>point := F_epoch, held := Session_lock # held c\<rparr>, emit Acquire_lock st)
      | F_epoch \<Rightarrow>
          (case (if running st \<and> timestep st \<ge> (epoch st + 1) * epoch_size st
                 then next_epoch st else (Inr (), st)) of
             (Inl e, st1) \<Rightarrow> leave_session (F_raised_late e) c st1
           | (Inr u, st1) \<Rightarrow> (c\<lparr>point := F_stop_test\<rparr>, st1))
      | F_stop_test \<Rightarrow>
          if timestep st \<ge> timesteps st then (c\<lparr>point := F_stop\<rparr>, st)
          else leave_session F_returned c st
      | F_stop \<Rightarrow> (c\<lparr>point := F_close 0\<rparr>, emit Set_running_False (st\<lparr>running := False\<rparr>))
      | F_close k \<Rightarrow>
          if k < length (envs st) then
            if busy (Env_lock (env_id (envs st ! k))) then (c, st)
            else
              (case call_env_close (envs st ! k)
                      (emit (Acquire_env_lock (env_id (envs st ! k))) st) of
                 (Inl e, st1) \<Rightarrow>
                   leave_session (F_raised_late e) c
                     (emit (Release_env_lock (env_id (envs st ! k))) st1)
               | (Inr u, st1) \<Rightarrow>
                   (c\<lparr>point := F_close (k + 1)\<rparr>,
                    emit (Release_env_lock (env_id (envs st ! k))) st1))
          else (c\<lparr>point := F_store_scores\<rparr>, st)
      | F_store_scores \<Rightarrow>
          (case store_scores L st of
             (Inl e, st1) \<Rightarrow> leave_session (F_raised_late e) c st1
           | (Inr u, st1) \<Rightarrow> leave_session F_returned c st1)
      | F_returned \<Rightarrow> (c, st)
      | F_raised e \<Rightarrow> (c, st)
      | F_raised_late e \<Rightarrow> (c, st))"

definition busy_lock :: "('w, 's, 'a) caller list \<Rightarrow> lock \<Rightarrow> bool" where
  "busy_lock cs l = list_ex (\<lambda>c. l \<in> set (held c)) cs"

text \<open>A schedule names the caller that takes the next step.\<close>

fun fine_run ::
  "('w, 's, 'a) lib \<Rightarrow> nat list \<Rightarrow> ('w, 's, 'a) caller list \<Rightarrow> ('w, 's, 'a) trainer
     \<Rightarrow> ('w, 's, 'a) caller list \<times> ('w, 's, 'a) trainer" where
  "fine_run L [] cs st = (cs, st)"
| "fine_run L (i # sched) cs st =
     (if i < length cs then
        (case fine_step L (busy_lock cs) (cs ! i) st of
           (c', st') \<Rightarrow> fine_run L sched (cs[i := c']) st')
      else fine_run L sched cs st)"









text \<open>
  Environments that do not share their state: the world has one counter for each
  environment, the steps since its reset. \<^verbatim>\<open>GymEnv\<close> gives the new environment the
  next counter; its episodes last \<open>n\<close> steps, and its reward is 1 for the first
  environment made, 2 for the second and so on.
\<close>

definition slot_env :: "nat \<Rightarrow> nat \<Rightarrow> real \<Rightarrow> (nat list, unit, unit) env" where
  "slot_env k n r =
     \<lparr> env_id = 0,
       env_reset = (\<lambda>cb w. (Inr (), w[k := 0])),
       env_step = (\<lambda>cb a w. if w ! k < n then (Inr ((), r), w[k := Suc (w ! k)])
                             else (Inl StopEpisode, w)),
       env_close = (\<lambda>w. (Inr (), w)) \<rparr>"

definition slot_lib :: "nat \<Rightarrow> (nat list, unit, unit) lib" where
  "slot_lib n =
     \<lparr> GymEnv = (\<lambda>name dir w. (Inr (slot_env (length w) n (real (length w + 1))), w @ [0])),
       ensure_directory = (\<lambda>d w. (Inr (), w)),
       Experience = (\<lambda>maxlen w. (Inr (), w)),
       Experience_append_op = (\<lambda>t w. (Inr (), w)),
       Experience_save_op = (\<lambda>d ep w. (Inr (), w)),
       np_save = (\<lambda>d xs w. (Inr (), w)) \<rparr>"

text \<open>
  \<^verbatim>\<open>t = Trainer(None, 'env', ts, epoch_size=es); t.add_preprocess(P)\<close>, then two workers,
  each with the environment it took from \<^verbatim>\<open>t.create_env()\<close> and about to call
  \<^verbatim>\<open>t.run_episode\<close>.
\<close>

definition slot_session :: "int \<Rightarrow> int \<Rightarrow> (nat list, unit, unit) trainer" where
  "slot_session ts es =
     \<lparr> directory = None, env_name = ''env'', timesteps = ts, epoch_size = es,
       videos = 0, experience = False, experience_maxlen = 50000,
       envs = [], preprocesses = [plain_wrapper], scores = [], epoch = 0, episode = 0,
       timestep = 0, running = True, world = [], trace = [], fresh = 0 \<rparr>"

definition duo_session :: "int \<Rightarrow> int \<Rightarrow> (nat list, unit, unit) trainer" where
  "duo_session ts es =
     snd (create_env (slot_lib 2) (snd (create_env (slot_lib 2) (slot_session ts es))))"

definition duo :: "int \<Rightarrow> int \<Rightarrow> (nat list, unit, unit) caller list" where
  "duo ts es = map (caller idle_agent) (envs (duo_session ts es))"

section \<open>Properties\<close>

lemmas call_defs = call_agent_start_def call_agent_step_def call_agent_experience_def
  call_agent_stop_def call_env_reset_def call_env_step_def call_env_close_def
  call_Experience_def call_experience_append_def call_experience_save_def call_np_save_def

lemmas fixture_defs = fixed_env_def idle_agent_def fixed_lib_def plain_wrapper_def
  session_def stopped_session_def

subsection \<open>The effect of one episode\<close>

lemma step_rewards_append: "step_rewards b (xs @ ys) = step_rewards b xs @ step_rewards b ys"
  by (induction xs) (auto split: option.splits)

lemma grows_refl: "grows st [] st"
  unfolding grows_def by (rule exI [of _ "world st"]) simp

lemma grows_trans: "grows st a st1 \<Longrightarrow> grows st1 b st2 \<Longrightarrow> grows st (a @ b) st2"
  unfolding grows_def by auto

lemma grows_recording: "grows st new st' \<Longrightarrow> recording st' = recording st"
  unfolding grows_def recording_def by auto

lemma perform_grows: "perform f ev st = (r, st') \<Longrightarrow> grows st [ev r] st'"
  unfolding grows_def perform_def by (auto split: prod.splits)

lemma progresses_recording: "progresses st new st' \<Longrightarrow> recording st' = recording st"
  unfolding progresses_def recording_def by auto

lemma progresses_trans:
  assumes "progresses st a st1" and "progresses st1 b st2"
  shows "progresses st (a @ b) st2"
proof -
  have r: "recording st1 = recording st" using assms(1) by (rule progresses_recording)
  from assms show ?thesis
    unfolding progresses_def r by (auto simp: step_rewards_append add.assoc)
qed

lemma grows_progresses:
  "grows st new st' \<Longrightarrow> step_rewards (recording st) new = [] \<Longrightarrow> progresses st new st'"
  unfolding grows_def progresses_def by auto

lemma grows_tick:
  "grows st new st' \<Longrightarrow> step_rewards (recording st) new = [r]
     \<Longrightarrow> progresses st new (st'\<lparr>timestep := timestep st' + 1\<rparr>)"
  unfolding grows_def progresses_def by auto

lemma interaction_effect:
  assumes "interaction L ag en state st = (res, st')"
  shows "\<exists>new. grows st new st' \<and> list_all episode_event new \<and>
           step_rewards (recording st) new = (case res of Inl e \<Rightarrow> [] | Inr sr \<Rightarrow> [snd sr])"
proof -
  obtain r1 st1 where c1: "call_agent_step ag state st = (r1, st1)"
    by (cases "call_agent_step ag state st")
  have g1: "grows st [Agent_step (raised r1)] st1"
    using c1 unfolding call_agent_step_def by (rule perform_grows)
  show ?thesis
  proof (cases r1)
    case (Inl e)
    with assms c1 have "res = Inl e" "st' = st1" by (simp_all add: interaction_def)
    with g1 Inl show ?thesis by (intro exI [of _ "[Agent_step (raised r1)]"]) (simp add: raised_def)
  next
    case (Inr action)
    obtain r2 st2 where c2: "call_env_step en action st1 = (r2, st2)"
      by (cases "call_env_step en action st1")
    have g2: "grows st1 [Env_step (env_id en) (map_sum id snd r2)] st2"
      using c2 unfolding call_env_step_def by (rule perform_grows)
    have g12: "grows st ([Agent_step None] @ [Env_step (env_id en) (map_sum id snd r2)]) st2"
      using g1 g2 Inr by (intro grows_trans [of st _ st1]) (simp_all add: raised_def)
    show ?thesis
    proof (cases r2)
      case (Inl e)
      with assms c1 c2 Inr have "res = Inl e" "st' = st2" by (simp_all add: interaction_def)
      with g12 Inl show ?thesis
        by (intro exI [of _ "[Agent_step None, Env_step (env_id en) (Inl e)]"]) simp
    next
      case r2: (Inr sr)
      obtain successor reward where sr: "sr = (successor, reward)" by (cases sr)
      obtain r3 st3 where c3: "call_agent_experience ag state action reward successor st2 = (r3, st3)"
        by (cases "call_agent_experience ag state action reward successor st2")
      have g3: "grows st2 [Agent_experience reward (raised r3)] st3"
        using c3 unfolding call_agent_experience_def by (rule perform_grows)
      have g13: "grows st ([Agent_step None, Env_step (env_id en) (Inr reward)] @ [Agent_experience reward (raised r3)]) st3"
        using g12 g3 r2 sr by (intro grows_trans [of st _ st2]) simp_all
      have rec3: "recording st3 = recording st" using g13 by (rule grows_recording)
      show ?thesis
      proof (cases r3)
        case (Inl e)
        with assms c1 c2 c3 Inr r2 sr have "res = Inl e" "st' = st3" by (simp_all add: interaction_def)
        with g13 Inl show ?thesis
          by (intro exI [of _ "[Agent_step None, Env_step (env_id en) (Inr reward), Agent_experience reward (Some e)]"])
             (simp add: raised_def)
      next
        case r3: (Inr u)
        show ?thesis
        proof (cases "recording st")
          case False
          with assms c1 c2 c3 Inr r2 sr r3 rec3 have "res = Inr (successor, reward)" "st' = st3"
            by (simp_all add: interaction_def)
          with g13 r3 False show ?thesis
            by (intro exI [of _ "[Agent_step None, Env_step (env_id en) (Inr reward), Agent_experience reward None]"])
               (simp add: raised_def)
        next
          case True
          obtain r4 st4 where c4: "call_experience_append L (state, action, reward, successor) st3 = (r4, st4)"
            by (cases "call_experience_append L (state, action, reward, successor) st3")
          have g4: "grows st3 [Experience_append reward (raised r4)] st4"
            using c4 unfolding call_experience_append_def by (drule_tac perform_grows) simp
          have g14: "grows st ([Agent_step None, Env_step (env_id en) (Inr reward), Agent_experience reward None] @ [Experience_append reward (raised r4)]) st4"
            using g13 g4 r3 by (intro grows_trans [of st _ st3]) (simp_all add: raised_def)
          show ?thesis
          proof (cases r4)
            case (Inl e)
            with assms c1 c2 c3 c4 Inr r2 sr r3 rec3 True have "res = Inl e" "st' = st4"
              by (simp_all add: interaction_def)
            with g14 Inl True show ?thesis
              by (intro exI [of _ "[Agent_step None, Env_step (env_id en) (Inr reward), Agent_experience reward None, Experience_append reward (Some e)]"])
                 (simp add: raised_def)
          next
            case r4: (Inr u4)
            with assms c1 c2 c3 c4 Inr r2 sr r3 rec3 True have "res = Inr (successor, reward)" "st' = st4"
              by (simp_all add: interaction_def)
            with g14 r4 True show ?thesis
              by (intro exI [of _ "[Agent_step None, Env_step (env_id en) (Inr reward), Agent_experience reward None, Experience_append reward None]"])
                 (simp add: raised_def)
          qed
        qed
      qed
    qed
  qed
qed


lemma episode_loop_effect:
  assumes "episode_loop L ag en state score st = Some y"
  shows "\<exists>new. progresses st new (snd (snd y)) \<and> list_all episode_event new \<and>
           fst (snd y) = score + sum_list (step_rewards (recording st) new)"
proof (rule episode_loop.raw_induct
    [where P = "\<lambda>L ag en state score st y.
       \<exists>new. progresses st new (snd (snd y)) \<and> list_all episode_event new \<and>
         fst (snd y) = score + sum_list (step_rewards (recording st) new)", OF _ assms],
    goal_cases)
  case (1 loop L ag en state score st y)
  note IH = 1(1) and body = 1(2)
  obtain res st1 where i: "interaction L ag en state st = (res, st1)"
    by (cases "interaction L ag en state st")
  from interaction_effect [OF i] obtain new1 where
    g: "grows st new1 st1" and ev: "list_all episode_event new1" and
    rw: "step_rewards (recording st) new1 = (case res of Inl e \<Rightarrow> [] | Inr sr \<Rightarrow> [snd sr])"
    by blast
  show ?case
  proof (cases res)
    case (Inl e)
    with body i have y: "y = (e, score, st1)" by simp
    from g rw Inl have "progresses st new1 st1" by (intro grows_progresses) simp_all
    with ev rw Inl y show ?thesis by (intro exI [of _ new1]) simp
  next
    case (Inr sr)
    obtain successor reward where sr: "sr = (successor, reward)" by (cases sr)
    let ?st2 = "st1\<lparr>timestep := timestep st1 + 1\<rparr>"
    from body i Inr sr have rec: "loop L ag en successor (score + reward) ?st2 = Some y" by simp
    from IH [OF rec] obtain new2 where
      p2: "progresses ?st2 new2 (snd (snd y))" and ev2: "list_all episode_event new2" and
      sc: "fst (snd y) = score + reward + sum_list (step_rewards (recording ?st2) new2)"
      by blast
    from g rw Inr sr have p1: "progresses st new1 ?st2" by (intro grows_tick [where r = reward]) simp_all
    have r2: "recording ?st2 = recording st" using p1 by (rule progresses_recording)
    have "progresses st (new1 @ new2) (snd (snd y))" using p1 p2 by (rule progresses_trans)
    moreover have "list_all episode_event (new1 @ new2)" using ev ev2 by simp
    moreover have "fst (snd y) = score + sum_list (step_rewards (recording st) (new1 @ new2))"
      using sc rw Inr sr r2 by (simp add: step_rewards_append)
    ultimately show ?thesis by blast
  qed
qed

lemma emit_grows: "grows st [ev] (emit ev st)"
  unfolding grows_def emit_def by (rule exI [of _ "world st"]) simp

lemma progresses_refl: "progresses st [] st"
  unfolding progresses_def by (rule exI [of _ "world st"]) simp

lemma try_block_effect:
  assumes "try_block L ag en st = Some (e, score, st')"
  shows "\<exists>new. progresses st new st' \<and> list_all episode_event new \<and>
           score = sum_list (step_rewards (recording st) new)"
proof -
  obtain r st1 where c: "call_env_reset en st = (r, st1)" by (cases "call_env_reset en st")
  have g: "grows st [Env_reset (env_id en) (raised r)] st1"
    using c unfolding call_env_reset_def by (rule perform_grows)
  then have p: "progresses st [Env_reset (env_id en) (raised r)] st1"
    by (rule grows_progresses) simp
  show ?thesis
  proof (cases r)
    case (Inl x)
    with assms c have "e = x" "score = 0" "st' = st1" by (simp_all add: try_block_def)
    with p show ?thesis by (intro exI [of _ "[Env_reset (env_id en) (raised r)]"]) simp
  next
    case (Inr state)
    with assms c have "episode_loop L ag en state 0 st1 = Some (e, score, st')"
      by (simp add: try_block_def)
    from episode_loop_effect [OF this] obtain new where
      p2: "progresses st1 new st'" and ev: "list_all episode_event new" and
      sc: "score = sum_list (step_rewards (recording st1) new)"
      by auto
    have r1: "recording st1 = recording st" using g by (rule grows_recording)
    have "progresses st ([Env_reset (env_id en) (raised r)] @ new) st'"
      using p p2 by (rule progresses_trans)
    with ev sc r1 show ?thesis
      by (intro exI [of _ "[Env_reset (env_id en) (raised r)] @ new"]) simp
  qed
qed

lemma start_episode_effect:
  assumes "start_episode L ag st = (r, st')"
  shows "\<exists>new. grows st new st' \<and> list_all episode_event new \<and> step_rewards b new = []"
proof (cases "recording st")
  case False
  with assms have c: "call_agent_start ag st = (r, st')" by (simp add: start_episode_def)
  have "grows st [Agent_start (raised r)] st'"
    using c unfolding call_agent_start_def by (rule perform_grows)
  then show ?thesis by (intro exI [of _ "[Agent_start (raised r)]"]) simp
next
  case True
  obtain r1 st1 where c1: "call_Experience L st = (r1, st1)" by (cases "call_Experience L st")
  have g1: "grows st [Experience_new (raised r1)] st1"
    using c1 unfolding call_Experience_def by (rule perform_grows)
  show ?thesis
  proof (cases r1)
    case (Inl e)
    with assms True c1 have "st' = st1" by (simp add: start_episode_def)
    with g1 show ?thesis by (intro exI [of _ "[Experience_new (raised r1)]"]) simp
  next
    case (Inr u)
    with assms True c1 have c: "call_agent_start ag st1 = (r, st')" by (simp add: start_episode_def)
    have "grows st1 [Agent_start (raised r)] st'"
      using c unfolding call_agent_start_def by (rule perform_grows)
    with g1 have "grows st ([Experience_new (raised r1)] @ [Agent_start (raised r)]) st'"
      by (rule grows_trans)
    then show ?thesis
      by (intro exI [of _ "[Experience_new (raised r1)] @ [Agent_start (raised r)]"]) simp
  qed
qed

lemma after_episode_effect:
  assumes "after_episode L ag ep score st = (r, st')"
  shows "\<exists>new. grows st new st' \<and> list_all after_event new \<and> step_rewards b new = [] \<and>
           (case r of Inl e \<Rightarrow> True | Inr x \<Rightarrow> x = score)"
proof -
  obtain r1 st1 where c1: "call_agent_stop ag st = (r1, st1)" by (cases "call_agent_stop ag st")
  have g1: "grows st [Agent_stop (raised r1)] st1"
    using c1 unfolding call_agent_stop_def by (rule perform_grows)
  show ?thesis
  proof (cases r1)
    case (Inl e)
    with assms c1 have "r = Inl e" "st' = st1" by (simp_all add: after_episode_def)
    with g1 show ?thesis by (intro exI [of _ "[Agent_stop (raised r1)]"]) simp
  next
    case (Inr u)
    show ?thesis
    proof (cases "recording st1")
      case False
      with assms c1 Inr have "r = Inr score" "st' = st1" by (simp_all add: after_episode_def)
      with g1 show ?thesis by (intro exI [of _ "[Agent_stop (raised r1)]"]) simp
    next
      case True
      obtain r2 st2 where c2: "call_experience_save L ep st1 = (r2, st2)"
        by (cases "call_experience_save L ep st1")
      have g2: "grows st1 [Experience_save ep (raised r2)] st2"
        using c2 unfolding call_experience_save_def by (rule perform_grows)
      from g1 g2 have g: "grows st ([Agent_stop (raised r1)] @ [Experience_save ep (raised r2)]) st2"
        by (rule grows_trans)
      from assms c1 c2 Inr True have "st' = st2" "case r of Inl e \<Rightarrow> True | Inr x \<Rightarrow> x = score"
        by (auto simp: after_episode_def split: sum.splits)
      with g show ?thesis
        by (intro exI [of _ "[Agent_stop (raised r1)] @ [Experience_save ep (raised r2)]"]) simp
    qed
  qed
qed

lemma list_all_inner_episode: "list_all episode_event xs \<Longrightarrow> list_all inner_event xs"
  by (induction xs) (auto simp: inner_event_def)

lemma list_all_inner_after: "list_all after_event xs \<Longrightarrow> list_all inner_event xs"
  by (induction xs) (auto simp: inner_event_def)


lemma run_episode_inner_effect:
  assumes "run_episode_inner L en ag ep st = Some (r, st')"
  shows "\<exists>new. progresses st new st' \<and> list_all inner_event new \<and>
           (case r of Inl e \<Rightarrow> True
            | Inr score \<Rightarrow> score = sum_list (step_rewards (recording st) new))"
proof -
  obtain r1 st1 where c1: "start_episode L ag st = (r1, st1)" by (cases "start_episode L ag st")
  from start_episode_effect [OF c1, of "recording st"] obtain new1 where
    g1: "grows st new1 st1" and ev1: "list_all episode_event new1" and
    rw1: "step_rewards (recording st) new1 = []"
    by auto
  have p1: "progresses st new1 st1" using g1 rw1 by (rule grows_progresses)
  have rec1: "recording st1 = recording st" using g1 by (rule grows_recording)
  show ?thesis
  proof (cases r1)
    case (Inl e)
    with assms c1 have "r = Inl e" "st' = st1" by (simp_all add: run_episode_inner_def)
    with p1 ev1 show ?thesis
      by (intro exI [of _ new1]) (simp add: list_all_inner_episode)
  next
    case (Inr u)
    from assms c1 Inr obtain e score st2 where t: "try_block L ag en st1 = Some (e, score, st2)"
      and rest: "(if e = StopEpisode then after_episode L ag ep score st2 else (Inl e, st2)) = (r, st')"
      by (auto simp: run_episode_inner_def split: option.splits if_splits)
    from try_block_effect [OF t] obtain new2 where
      p2: "progresses st1 new2 st2" and ev2: "list_all episode_event new2" and
      sc: "score = sum_list (step_rewards (recording st1) new2)"
      by auto
    have p12: "progresses st (new1 @ new2) st2" using p1 p2 by (rule progresses_trans)
    have rec2: "recording st2 = recording st" using p12 by (rule progresses_recording)
    show ?thesis
    proof (cases "e = StopEpisode")
      case False
      with rest have "r = Inl e" "st' = st2" by simp_all
      with p12 ev1 ev2 show ?thesis
        by (intro exI [of _ "new1 @ new2"]) (simp add: list_all_inner_episode)
    next
      case True
      with rest have a: "after_episode L ag ep score st2 = (r, st')" by simp
      from after_episode_effect [OF a, of "recording st"] obtain new3 where
        g3: "grows st2 new3 st'" and ev3: "list_all after_event new3" and
        rw3: "step_rewards (recording st) new3 = []" and
        res: "case r of Inl e \<Rightarrow> True | Inr x \<Rightarrow> x = score"
        by auto
      have "progresses st2 new3 st'" using g3 rw3 rec2 by (intro grows_progresses) simp_all
      with p12 have "progresses st ((new1 @ new2) @ new3) st'" by (rule progresses_trans)
      moreover have "list_all inner_event ((new1 @ new2) @ new3)"
        using ev1 ev2 ev3 by (simp add: list_all_inner_episode list_all_inner_after)
      moreover have "case r of Inl e \<Rightarrow> True
            | Inr x \<Rightarrow> x = sum_list (step_rewards (recording st) ((new1 @ new2) @ new3))"
        using res sc rw1 rw3 rec1 by (auto simp: step_rewards_append split: sum.splits)
      ultimately show ?thesis by blast
    qed
  qed
qed

subsection \<open>The effect of the locked blocks\<close>

lemma progresses_trace: "progresses st new st' \<Longrightarrow> trace st' = trace st @ new"
  unfolding progresses_def by auto



lemma step_rewards_check: "list_all check_event xs \<Longrightarrow> step_rewards b xs = []"
proof (induction xs)
  case Nil
  then show ?case by simp
next
  case (Cons x xs)
  then show ?case by (cases x) simp_all
qed

lemma shutdowns_append: "shutdowns (xs @ ys) = shutdowns xs + shutdowns ys"
  by (simp add: shutdowns_def)

lemma shutdowns_inner: "list_all inner_event xs \<Longrightarrow> shutdowns xs = 0"
proof (induction xs)
  case Nil
  then show ?case by (simp add: shutdowns_def)
next
  case (Cons x xs)
  then show ?case by (cases x) (simp_all add: shutdowns_def inner_event_def)
qed

lemma locked_episode_effect:
  assumes "locked_episode L ag en ep st = Some (r, st')"
  shows "\<exists>inner. progresses st (Acquire_env_lock (env_id en) # inner @ [Release_env_lock (env_id en)]) st'
           \<and> list_all inner_event inner \<and>
           (case r of Inl e \<Rightarrow> True
            | Inr score \<Rightarrow> score = sum_list (step_rewards (recording st) inner))"
proof -
  let ?st0 = "emit (Acquire_env_lock (env_id en)) st"
  from assms obtain st1 where i: "run_episode_inner L en ag ep ?st0 = Some (r, st1)"
    and st': "st' = emit (Release_env_lock (env_id en)) st1"
    by (auto simp: locked_episode_def split: option.splits)
  have p0: "progresses st [Acquire_env_lock (env_id en)] ?st0"
    by (rule grows_progresses [OF emit_grows]) simp
  have rec0: "recording ?st0 = recording st" using p0 by (rule progresses_recording)
  from run_episode_inner_effect [OF i] obtain inner where
    p1: "progresses ?st0 inner st1" and ev: "list_all inner_event inner" and
    res: "case r of Inl e \<Rightarrow> True | Inr score \<Rightarrow> score = sum_list (step_rewards (recording ?st0) inner)"
    by auto
  have p01: "progresses st ([Acquire_env_lock (env_id en)] @ inner) st1"
    using p0 p1 by (rule progresses_trans)
  have "progresses st1 [Release_env_lock (env_id en)] st'"
    unfolding st' by (rule grows_progresses [OF emit_grows]) simp
  with p01 have "progresses st (([Acquire_env_lock (env_id en)] @ inner) @ [Release_env_lock (env_id en)]) st'"
    by (rule progresses_trans)
  with ev res rec0 show ?thesis by (intro exI [of _ inner]) (auto split: sum.splits)
qed

lemma checked_refl: "checked st [] st"
  unfolding checked_def
  by (rule exI [of _ "world st"], rule exI [of _ "epoch st"]) (simp add: shutdowns_def)

lemma grows_checked:
  "grows st new st' \<Longrightarrow> list_all check_event new \<Longrightarrow> shutdowns new = 0 \<Longrightarrow> checked st new st'"
  unfolding grows_def checked_def
  by (auto intro!: exI [of _ "epoch st"])

lemma checkedI:
  "st' = st\<lparr>world := w, trace := trace st @ new, epoch := ep,
              running := (running st \<and> shutdowns new = 0)\<rparr>
   \<Longrightarrow> list_all check_event new \<Longrightarrow> shutdowns new \<le> 1 \<Longrightarrow> checked st new st'"
  unfolding checked_def by blast

lemma next_epoch_checked:
  assumes "next_epoch st = (r, st')"
  shows "\<exists>new. checked st new st' \<and> shutdowns new = 0 \<and> epoch st' = epoch st + 1"
proof (cases "mean (slice_from (- epoch_size st) (scores st))")
  case (Inl e)
  with assms have st': "st' = st\<lparr>epoch := epoch st + 1\<rparr>"
    by (simp add: next_epoch_def Let_def)
  have "checked st [] st'"
    by (rule checkedI [where w = "world st" and ep = "epoch st + 1"])
       (simp_all add: st' shutdowns_def)
  then show ?thesis using st' by (intro exI [of _ "[]"]) (simp add: shutdowns_def)
next
  case (Inr x)
  with assms have st': "st' = st\<lparr>epoch := epoch st + 1,
      trace := trace st @ [Print_epoch (epoch st + 1) (timestep st) x]\<rparr>"
    by (simp add: next_epoch_def Let_def emit_def)
  have "checked st [Print_epoch (epoch st + 1) (timestep st) x] st'"
    by (rule checkedI [where w = "world st" and ep = "epoch st + 1"])
       (simp_all add: st' shutdowns_def)
  then show ?thesis using st'
    by (intro exI [of _ "[Print_epoch (epoch st + 1) (timestep st) x]"]) (simp add: shutdowns_def)
qed

lemma shutdown_event_check: "list_all shutdown_event xs \<Longrightarrow> list_all check_event xs"
proof (induction xs)
  case Nil
  then show ?case by simp
next
  case (Cons x xs)
  then show ?case by (cases x) simp_all
qed

lemma shutdown_event_no_print: "list_all shutdown_event xs \<Longrightarrow> filter is_print xs = []"
proof (induction xs)
  case Nil
  then show ?case by simp
next
  case (Cons x xs)
  then show ?case by (cases x) simp_all
qed

lemma close_all_effect:
  "close_all ens st = (r, st') \<Longrightarrow>
     \<exists>new. grows st new st' \<and> list_all shutdown_event new \<and> shutdowns new = 0"
proof (induction ens arbitrary: st)
  case Nil
  then have "st' = st" by simp
  then show ?case using grows_refl [of st] by (intro exI [of _ "[]"]) (simp add: shutdowns_def)
next
  case (Cons en ens)
  let ?i = "env_id en"
  let ?st0 = "emit (Acquire_env_lock ?i) st"
  obtain r1 st1 where c: "call_env_close en ?st0 = (r1, st1)" by (cases "call_env_close en ?st0")
  have g1: "grows ?st0 [Env_close ?i (raised r1)] st1"
    using c unfolding call_env_close_def by (rule perform_grows)
  have g01: "grows st ([Acquire_env_lock ?i] @ [Env_close ?i (raised r1)]) st1"
    using emit_grows g1 by (rule grows_trans)
  let ?st2 = "emit (Release_env_lock ?i) st1"
  have g02: "grows st (([Acquire_env_lock ?i] @ [Env_close ?i (raised r1)]) @ [Release_env_lock ?i]) ?st2"
    using g01 emit_grows by (rule grows_trans)
  show ?case
  proof (cases r1)
    case (Inl e)
    with Cons.prems c have "st' = ?st2" by simp
    with g02 show ?thesis
      by (intro exI [of _ "[Acquire_env_lock ?i, Env_close ?i (raised r1), Release_env_lock ?i]"])
         (simp add: shutdowns_def)
  next
    case (Inr u)
    with Cons.prems c have "close_all ens ?st2 = (r, st')" by simp
    from Cons.IH [OF this] obtain new where
      g: "grows ?st2 new st'" and ev: "list_all shutdown_event new" and sh: "shutdowns new = 0"
      by auto
    from g02 g have "grows st ((([Acquire_env_lock ?i] @ [Env_close ?i (raised r1)]) @ [Release_env_lock ?i]) @ new) st'"
      by (rule grows_trans)
    with ev sh show ?thesis
      by (intro exI [of _ "[Acquire_env_lock ?i, Env_close ?i (raised r1), Release_env_lock ?i] @ new"])
         (simp add: shutdowns_def)
  qed
qed

lemma store_scores_effect:
  "store_scores L st = (r, st') \<Longrightarrow>
     \<exists>new. grows st new st' \<and> list_all shutdown_event new \<and> shutdowns new = 0"
proof (cases "truthy (directory st)")
  case False
  assume "store_scores L st = (r, st')"
  with False have "st' = st" by (simp add: store_scores_def)
  then show ?thesis using grows_refl [of st] by (intro exI [of _ "[]"]) (simp add: shutdowns_def)
next
  case True
  assume "store_scores L st = (r, st')"
  with True have "call_np_save L st = (r, st')" by (simp add: store_scores_def)
  then have "grows st [Np_save (scores st) (raised r)] st'"
    unfolding call_np_save_def by (rule perform_grows)
  then show ?thesis
    by (intro exI [of _ "[Np_save (scores st) (raised r)]"]) (simp add: shutdowns_def)
qed

lemma stop_training_effect:
  assumes "stop_training L st = (r, st')"
  shows "\<exists>new. grows (st\<lparr>running := False\<rparr>) (Set_running_False # new) st'
           \<and> list_all shutdown_event new \<and> shutdowns new = 0"
proof -
  let ?st1 = "emit Set_running_False (st\<lparr>running := False\<rparr>)"
  have g0: "grows (st\<lparr>running := False\<rparr>) [Set_running_False] ?st1" by (rule emit_grows)
  obtain r1 st2 where c: "close_all (envs ?st1) ?st1 = (r1, st2)"
    by (cases "close_all (envs ?st1) ?st1")
  from close_all_effect [OF c] obtain new1 where
    g1: "grows ?st1 new1 st2" and ev1: "list_all shutdown_event new1" and sh1: "shutdowns new1 = 0"
    by auto
  from g0 g1 have g01: "grows (st\<lparr>running := False\<rparr>) ([Set_running_False] @ new1) st2"
    by (rule grows_trans)
  show ?thesis
  proof (cases r1)
    case (Inl e)
    with assms c have "st' = st2" by (simp add: stop_training_def Let_def)
    with g01 ev1 sh1 show ?thesis by (intro exI [of _ new1]) simp
  next
    case (Inr u)
    with assms c have "store_scores L st2 = (r, st')" by (simp add: stop_training_def Let_def)
    from store_scores_effect [OF this] obtain new2 where
      g2: "grows st2 new2 st'" and ev2: "list_all shutdown_event new2" and sh2: "shutdowns new2 = 0"
      by auto
    from g01 g2 have "grows (st\<lparr>running := False\<rparr>) (([Set_running_False] @ new1) @ new2) st'"
      by (rule grows_trans)
    with ev1 ev2 sh1 sh2 show ?thesis
      by (intro exI [of _ "new1 @ new2"]) (simp add: shutdowns_append)
  qed
qed

lemma stop_training_checked:
  assumes "stop_training L st = (r, st')"
  shows "\<exists>new. checked st new st' \<and> shutdowns new = 1"
proof -
  from stop_training_effect [OF assms] obtain new where
    g: "grows (st\<lparr>running := False\<rparr>) (Set_running_False # new) st'" and
    ev0: "list_all shutdown_event new" and sh: "shutdowns new = 0"
    by auto
  have ev: "list_all check_event new" using ev0 by (rule shutdown_event_check)
  have s1: "shutdowns (Set_running_False # new) = 1" using sh by (simp add: shutdowns_def)
  from g obtain w where
    st': "st' = st\<lparr>running := False, world := w, trace := trace st @ Set_running_False # new\<rparr>"
    unfolding grows_def by auto
  have "checked st (Set_running_False # new) st'"
    by (rule checkedI [where w = w and ep = "epoch st"]) (simp_all add: st' s1 ev)
  with s1 show ?thesis by blast
qed

lemma checked_trans:
  assumes "checked st a st1" and "checked st1 b st2" and "shutdowns a + shutdowns b \<le> 1"
  shows "checked st (a @ b) st2"
proof -
  from assms(1) obtain w1 ep1 where
    s1: "st1 = st\<lparr>world := w1, trace := trace st @ a, epoch := ep1,
                   running := (running st \<and> shutdowns a = 0)\<rparr>" and e1: "list_all check_event a"
    unfolding checked_def by auto
  from assms(2) obtain w2 ep2 where
    s2: "st2 = st1\<lparr>world := w2, trace := trace st1 @ b, epoch := ep2,
                   running := (running st1 \<and> shutdowns b = 0)\<rparr>" and e2: "list_all check_event b"
    unfolding checked_def by auto
  show ?thesis
    by (rule checkedI [where w = w2 and ep = ep2])
       (use assms(3) e1 e2 in \<open>auto simp: s1 s2 shutdowns_append\<close>)
qed

lemma epoch_and_stop_checked:
  assumes "epoch_and_stop L st = (r, st')"
  shows "\<exists>new. checked st new st'"
proof -
  let ?c = "running st \<and> timestep st \<ge> (epoch st + 1) * epoch_size st"
  obtain r1 st1 where c1: "(if ?c then next_epoch st else (Inr (), st)) = (r1, st1)"
    by (cases "if ?c then next_epoch st else (Inr (), st)")
  have "\<exists>new1. checked st new1 st1 \<and> shutdowns new1 = 0"
  proof (cases ?c)
    case True
    with c1 have "next_epoch st = (r1, st1)" by simp
    from next_epoch_checked [OF this] show ?thesis by blast
  next
    case False
    with c1 have "st1 = st" by simp
    with checked_refl [of st] show ?thesis by (intro exI [of _ "[]"]) (simp add: shutdowns_def)
  qed
  then obtain new1 where k1: "checked st new1 st1" and sh1: "shutdowns new1 = 0" by blast
  show ?thesis
  proof (cases r1)
    case (Inl e)
    with assms c1 have "st' = st1" by (simp add: epoch_and_stop_def Let_def)
    with k1 show ?thesis by blast
  next
    case (Inr u)
    show ?thesis
    proof (cases "timestep st1 \<ge> timesteps st1")
      case False
      with assms c1 Inr have "st' = st1" by (simp add: epoch_and_stop_def Let_def)
      with k1 show ?thesis by blast
    next
      case True
      with assms c1 Inr have "stop_training L st1 = (r, st')"
        by (simp add: epoch_and_stop_def Let_def)
      from stop_training_checked [OF this] obtain new2 where
        k2: "checked st1 new2 st'" and sh2: "shutdowns new2 = 1" by blast
      have "checked st (new1 @ new2) st'"
        using k1 k2 by (rule checked_trans) (simp add: sh1 sh2)
      then show ?thesis by blast
    qed
  qed
qed

subsection \<open>One call and many calls\<close>

lemma allocate_episode_eq:
  "allocate_episode st =
     (episode st, st\<lparr>episode := episode st + 1, trace := trace st @ [Acquire_lock, Release_lock]\<rparr>)"
  by (simp add: allocate_episode_def emit_def Let_def)

lemma locked_checks_effect:
  assumes "locked_checks L st = (r, st')"
  shows "\<exists>checks w ep. st' = st\<lparr>world := w,
             trace := trace st @ Acquire_lock # checks @ [Release_lock], epoch := ep,
             running := (running st \<and> shutdowns checks = 0)\<rparr>
           \<and> list_all check_event checks \<and> shutdowns checks \<le> 1"
proof -
  let ?st0 = "emit Acquire_lock st"
  from assms obtain st1 where e: "epoch_and_stop L ?st0 = (r, st1)"
    and st': "st' = emit Release_lock st1"
    by (auto simp: locked_checks_def split: prod.splits)
  from epoch_and_stop_checked [OF e] obtain checks where k: "checked ?st0 checks st1" by blast
  then obtain w ep where
    st1: "st1 = ?st0\<lparr>world := w, trace := trace ?st0 @ checks, epoch := ep,
                      running := (running ?st0 \<and> shutdowns checks = 0)\<rparr>"
    and ev: "list_all check_event checks" and sh: "shutdowns checks \<le> 1"
    unfolding checked_def by auto
  have "st' = st\<lparr>world := w,
             trace := trace st @ Acquire_lock # checks @ [Release_lock], epoch := ep,
             running := (running st \<and> shutdowns checks = 0)\<rparr>"
    by (simp add: st' st1 emit_def)
  with ev sh show ?thesis by blast
qed

lemma run_episode_running:
  assumes "running st" and "run_episode L ag en st = Some (r, st')"
  shows "\<exists>inner w. list_all inner_event inner \<and>
           (st' = faulted_call st (env_id en) inner w
            \<or> (\<exists>checks ep. st' = completed_call st (env_id en) inner checks w ep
                 \<and> list_all check_event checks \<and> shutdowns checks \<le> 1))"
proof -
  let ?i = "env_id en"
  let ?st1 = "st\<lparr>episode := episode st + 1, trace := trace st @ [Acquire_lock, Release_lock]\<rparr>"
  from assms obtain r2 st2 where le: "locked_episode L ag en (episode st) ?st1 = Some (r2, st2)"
    and rest: "(case r2 of Inl e \<Rightarrow> (Inl e, st2)
                | Inr score \<Rightarrow> locked_checks L (append_score score st2)) = (r, st')"
    by (auto simp: run_episode_def allocate_episode_eq split: option.splits sum.splits)
  from locked_episode_effect [OF le] obtain inner where
    p: "progresses ?st1 (Acquire_env_lock ?i # inner @ [Release_env_lock ?i]) st2"
    and ev: "list_all inner_event inner"
    and res: "case r2 of Inl e \<Rightarrow> True
              | Inr score \<Rightarrow> score = sum_list (step_rewards (recording ?st1) inner)"
    by auto
  have rec1: "recording ?st1 = recording st" by (simp add: recording_def)
  have quiet: "step_rewards (recording st) (Acquire_env_lock ?i # inner @ [Release_env_lock ?i])
          = step_rewards (recording st) inner"
    by (simp add: step_rewards_append)
  from p obtain w where st2: "st2 = faulted_call st ?i inner w"
    unfolding progresses_def faulted_call_def rec1 quiet by auto
  show ?thesis
  proof (cases r2)
    case (Inl e)
    with rest have "st' = st2" by simp
    with st2 ev show ?thesis by blast
  next
    case (Inr score)
    with res rec1 have sc: "score = sum_list (step_rewards (recording st) inner)" by simp
    from rest Inr have lc: "locked_checks L (append_score score st2) = (r, st')" by simp
    from locked_checks_effect [OF lc] obtain checks w2 ep where
      st': "st' = (append_score score st2)\<lparr>world := w2,
             trace := trace (append_score score st2) @ Acquire_lock # checks @ [Release_lock],
             epoch := ep,
             running := (running (append_score score st2) \<and> shutdowns checks = 0)\<rparr>"
      and ev2: "list_all check_event checks" and sh: "shutdowns checks \<le> 1"
      by blast
    have "st' = completed_call st ?i inner checks w2 ep"
      using assms(1) by (simp add: st' st2 sc append_score_def emit_def faulted_call_def completed_call_def)
    with ev ev2 sh show ?thesis by blast
  qed
qed


lemma lock_held_append: "lock_held h (xs @ ys) = lock_held (lock_held h xs) ys"
proof (induction xs arbitrary: h)
  case Nil
  then show ?case by simp
next
  case (Cons x xs)
  then show ?case by (cases x) simp_all
qed

lemma appends_unlocked_append:
  "appends_unlocked h (xs @ ys) = (appends_unlocked h xs \<and> appends_unlocked (lock_held h xs) ys)"
proof (induction xs arbitrary: h)
  case Nil
  then show ?case by simp
next
  case (Cons x xs)
  then show ?case by (cases x) auto
qed

lemma appended_append: "appended (xs @ ys) = appended xs @ appended ys"
proof (induction xs)
  case Nil
  then show ?case by simp
next
  case (Cons x xs)
  then show ?case by (cases x) simp_all
qed

lemma inner_quiet:
  "list_all inner_event xs \<Longrightarrow>
     lock_held h xs = h \<and> appends_unlocked h xs \<and> appended xs = []"
proof (induction xs)
  case Nil
  then show ?case by simp
next
  case (Cons x xs)
  then show ?case by (cases x) (simp_all add: inner_event_def)
qed

lemma check_quiet:
  "list_all check_event xs \<Longrightarrow>
     lock_held h xs = h \<and> appends_unlocked h xs \<and> appended xs = []"
proof (induction xs)
  case Nil
  then show ?case by simp
next
  case (Cons x xs)
  then show ?case by (cases x) simp_all
qed

lemma session_step_refl: "session_step st [] st"
  by (simp add: session_step_def shutdowns_def)

lemma session_step_trans:
  assumes "session_step st a st1" and "session_step st1 b st2"
  shows "session_step st (a @ b) st2"
proof -
  have rec: "recording st1 = recording st"
    using assms(1) by (simp add: session_step_def recording_def)
  from assms show ?thesis
    unfolding session_step_def rec
    by (auto simp: step_rewards_append shutdowns_append lock_held_append
        appends_unlocked_append appended_append split: if_splits)
qed

lemma faulted_call_step:
  assumes "running st" and "list_all inner_event inner"
  shows "session_step st
           ([Acquire_lock, Release_lock, Acquire_env_lock i] @ inner @ [Release_env_lock i])
           (faulted_call st i inner w)"
  using assms inner_quiet [OF assms(2), of False] shutdowns_inner [OF assms(2)]
  by (simp add: session_step_def faulted_call_def step_rewards_append shutdowns_append
      lock_held_append appends_unlocked_append appended_append shutdowns_def)

lemma completed_call_step:
  assumes "running st" and "list_all inner_event inner" and "list_all check_event checks"
    and "shutdowns checks \<le> 1"
  shows "session_step st
           ([Acquire_lock, Release_lock, Acquire_env_lock i] @ inner
              @ [Release_env_lock i, Scores_append (sum_list (step_rewards (recording st) inner)),
                 Acquire_lock] @ checks @ [Release_lock])
           (completed_call st i inner checks w ep)"
  using assms inner_quiet [OF assms(2), of False] shutdowns_inner [OF assms(2)]
    check_quiet [OF assms(3), of True] step_rewards_check [OF assms(3), of "recording st"]
  by (simp add: session_step_def completed_call_def step_rewards_append shutdowns_append
      lock_held_append appends_unlocked_append appended_append shutdowns_def)

lemma run_episode_step:
  assumes "run_episode L ag en st = Some (r, st')"
  shows "\<exists>new. session_step st new st'"
proof (cases "running st")
  case False
  with assms have "st' = st" by (simp add: run_episode_def)
  with session_step_refl [of st] show ?thesis by blast
next
  case True
  from run_episode_running [OF True assms] obtain inner w where
    ev: "list_all inner_event inner" and
    alt: "st' = faulted_call st (env_id en) inner w
            \<or> (\<exists>checks ep. st' = completed_call st (env_id en) inner checks w ep
                 \<and> list_all check_event checks \<and> shutdowns checks \<le> 1)"
    by blast
  from alt show ?thesis
  proof
    assume "st' = faulted_call st (env_id en) inner w"
    with faulted_call_step [OF True ev] show ?thesis by blast
  next
    assume "\<exists>checks ep. st' = completed_call st (env_id en) inner checks w ep
                 \<and> list_all check_event checks \<and> shutdowns checks \<le> 1"
    then obtain checks ep where "st' = completed_call st (env_id en) inner checks w ep"
      and "list_all check_event checks" and "shutdowns checks \<le> 1" by blast
    with completed_call_step [OF True ev] show ?thesis by blast
  qed
qed

lemma run_calls_step:
  "run_calls L cs st = Some st' \<Longrightarrow> \<exists>new. session_step st new st'"
proof (induction cs arbitrary: st)
  case Nil
  then have "st' = st" by simp
  with session_step_refl [of st] show ?case by blast
next
  case (Cons c cs)
  obtain ag en where c: "c = (ag, en)" by (cases c)
  from Cons.prems c obtain r st1 where
    one: "run_episode L ag en st = Some (r, st1)" and more: "run_calls L cs st1 = Some st'"
    by (auto split: option.splits)
  from run_episode_step [OF one] obtain a where a: "session_step st a st1" by blast
  from Cons.IH [OF more] obtain b where b: "session_step st1 b st'" by blast
  from session_step_trans [OF a b] show ?case by blast
qed

lemma session_step_new_events: "session_step st new st' \<Longrightarrow> new_events st st' = new"
  by (simp add: session_step_def new_events_def)

subsection \<open>The timestep counter\<close>

text \<open>
  After any sequence of calls made one after the other, each of which returned or
  raised, the timestep counter has advanced by the number of completed interaction
  steps of their episodes (the loop iterations that ran to their end, read off the
  trace), and it has not decreased.
\<close>

lemma timestep_in_a_row:
  assumes "run_calls L cs st = Some st'"
  shows "timestep st' = timestep st + int (length (step_rewards (recording st) (new_events st st')))
         \<and> timestep st \<le> timestep st'"
proof -
  from run_calls_step [OF assms] obtain new where s: "session_step st new st'" by blast
  have "new_events st st' = new" using s by (rule session_step_new_events)
  with s show ?thesis by (simp add: session_step_def)
qed

lemma timestep_in_a_row_example:
  "\<exists>st'. run_calls (fixed_lib 2 1 StopEpisode)
            [(idle_agent, fixed_env 2 1 StopEpisode), (idle_agent, fixed_env 2 1 StopEpisode)]
            (session 100 None 0) = Some st'
         \<and> timestep st' = 4
         \<and> length (step_rewards False (new_events (session 100 None 0) st')) = 4"
proof -
  let ?r = "run_calls (fixed_lib 2 1 StopEpisode)
            [(idle_agent, fixed_env 2 1 StopEpisode), (idle_agent, fixed_env 2 1 StopEpisode)]
            (session 100 None 0)"
  have t: "map_option timestep ?r = Some 4" by code_simp
  then obtain st' where r: "?r = Some st'" by auto
  with t have t4: "timestep st' = 4" by simp
  have rec: "recording (session 100 None 0) = False" by (simp add: recording_def session_def truthy_def)
  have t0: "timestep (session 100 None 0) = 0" by (simp add: session_def)
  from timestep_in_a_row [OF r] t4 rec t0
  have "length (step_rewards False (new_events (session 100 None 0) st')) = 4" by simp
  with r t4 show ?thesis by blast
qed

text \<open>The session of the two workers is what the constructor and \<^verbatim>\<open>add_preprocess\<close>
  give; its two environments have the identities 1 and 3 and a counter each.\<close>

lemma slot_session_constructed:
  assumes "es \<noteq> 0"
    and "Trainer (slot_lib n) None ''env'' ts (Some es) 0 False 50000 [] = Inr st"
  shows "add_preprocess plain_wrapper st = Inr (slot_session ts es)"
  using assms by (auto simp: Trainer_def add_preprocess_def slot_session_def truthy_def)

lemma duo_envs:
  "map env_id (envs (duo_session 2 2)) = [1, 3]
   \<and> world (duo_session 2 2) = [0, 0]
   \<and> map point (duo 2 2) = [F_check, F_check]"
  by code_simp

text \<open>
  C6. The claim: after any set of completed episodes the timestep counter equals the
  sum of their step counts, one for each completed step. On the code: line 116,
  \<^verbatim>\<open>self._timestep += 1\<close>, runs under the lock of the environment only, and two
  workers have two environments, so both can be in line 116 at once (the episode
  counter of lines 88 and 89 is stepped under the session lock). Below, each of two
  workers makes its first step, both read the counter in line 116 before either
  writes it (each holds the lock of its own environment, and both have read 0), and
  both calls run on to their end: after two completed episodes of two steps each the
  counter is 3. The counter can also decrease: the first worker reads 0, the second
  worker makes its two steps and the counter is 2, then the first worker writes 1.
\<close>

theorem overlapping_steps_lose_a_timestep:
  "timestep (duo_session 100 50) = 0
   \<and> map point (fst (fine_run (slot_lib 2) (replicate 7 0 @ replicate 7 1 @ [0, 1])
        (duo 100 50) (duo_session 100 50))) = [F_store 0 () 1 0, F_store 1 () 2 0]
   \<and> map held (fst (fine_run (slot_lib 2) (replicate 7 0 @ replicate 7 1 @ [0, 1])
        (duo 100 50) (duo_session 100 50))) = [[Env_lock 1], [Env_lock 3]]
   \<and> map point (fst (fine_run (slot_lib 2)
        (replicate 7 0 @ replicate 7 1 @ [0, 1, 0, 1] @ replicate 9 0 @ replicate 9 1)
        (duo 100 50) (duo_session 100 50))) = [F_returned, F_returned]
   \<and> step_rewards False (trace (snd (fine_run (slot_lib 2)
        (replicate 7 0 @ replicate 7 1 @ [0, 1, 0, 1] @ replicate 9 0 @ replicate 9 1)
        (duo 100 50) (duo_session 100 50)))) = [1, 2, 1, 2]
   \<and> scores (snd (fine_run (slot_lib 2)
        (replicate 7 0 @ replicate 7 1 @ [0, 1, 0, 1] @ replicate 9 0 @ replicate 9 1)
        (duo 100 50) (duo_session 100 50))) = [2, 4]
   \<and> timestep (snd (fine_run (slot_lib 2)
        (replicate 7 0 @ replicate 7 1 @ [0, 1, 0, 1] @ replicate 9 0 @ replicate 9 1)
        (duo 100 50) (duo_session 100 50))) = 3
   \<and> timestep (snd (fine_run (slot_lib 2) (replicate 8 0 @ replicate 12 1)
        (duo 100 50) (duo_session 100 50))) = 2
   \<and> timestep (snd (fine_run (slot_lib 2) (replicate 8 0 @ replicate 12 1 @ [0])
        (duo 100 50) (duo_session 100 50))) = 1"
  by code_simp

text \<open>A caller alone takes in the second model the steps of \<^verbatim>\<open>run_episode\<close>: here a
  call that ends the session.\<close>

lemma one_caller_alone:
  "map_option (\<lambda>p. (trace (snd p), scores (snd p), timestep (snd p), episode (snd p),
                    epoch (snd p), running (snd p), world (snd p)))
     (run_episode (slot_lib 2) idle_agent (envs (duo_session 2 2) ! 0) (duo_session 2 2))
   = Some ((\<lambda>p. (trace (snd p), scores (snd p), timestep (snd p), episode (snd p),
                  epoch (snd p), running (snd p), world (snd p)))
       (fine_run (slot_lib 2) (replicate 23 0) (duo 2 2) (duo_session 2 2)))"
  by code_simp

subsection \<open>What an episode returns\<close>




subsection \<open>A fault in the middle of an episode\<close>












subsection \<open>Shutdown\<close>

text \<open>
  For calls made one after the other in a new session, \<^verbatim>\<open>_stop_training\<close> is entered
  at most once, and it has been entered exactly when \<^verbatim>\<open>running\<close> is false; every call
  after that raises \<^verbatim>\<open>StopTraining\<close> at line 85 and does nothing.
\<close>

lemma shutdown_once_in_a_row:
  assumes "Trainer L dir name ts es vs ex maxlen w = Inr st0"
    and "run_calls L cs st0 = Some st'"
  shows "shutdowns (trace st') \<le> 1 \<and> running st' = (shutdowns (trace st') = 0)"
proof -
  from assms(1) have t0: "trace st0 = []" and r0: "running st0"
    by (auto simp: Trainer_def split: prod.splits sum.splits)
  from run_calls_step [OF assms(2)] obtain new where s: "session_step st0 new st'" by blast
  with t0 r0 show ?thesis by (simp add: session_step_def)
qed

text \<open>
  C1. The claim: the shutdown path runs at most once per session. On the code: the
  test of line 97 does not look at \<^verbatim>\<open>running\<close> (the test of line 95 does), so each
  caller that passed line 85 before the shutdown runs \<^verbatim>\<open>_stop_training\<close> again when
  its episode ends. Two workers with one environment each, both past line 85 before
  the first of them reaches line 97: \<^verbatim>\<open>_stop_training\<close> is entered twice and each
  registered environment is closed twice.
\<close>

theorem two_callers_shut_down_twice:
  "shutdowns (trace (snd (interleave (fixed_lib 2 1 StopEpisode) [0, 1, 0, 1, 0, 1, 0, 1, 0, 1]
      workers worker_session))) = 2
   \<and> closed_ids (trace (snd (interleave (fixed_lib 2 1 StopEpisode)
      [0, 1, 0, 1, 0, 1, 0, 1, 0, 1] workers worker_session))) = [1, 3, 1, 3]
   \<and> map (\<lambda>t. snd (snd t)) (fst (interleave (fixed_lib 2 1 StopEpisode)
      [0, 1, 0, 1, 0, 1, 0, 1, 0, 1] workers worker_session)) = [Returned, Returned]"
  by code_simp

subsection \<open>The scores\<close>

lemma run_calls_scores:
  "run_calls L cs st = Some st' \<Longrightarrow> scores st' = scores st @ completed_scores L cs st"
proof (induction cs arbitrary: st)
  case Nil
  then show ?case by simp
next
  case (Cons c cs)
  obtain ag en where c: "c = (ag, en)" by (cases c)
  show ?case
  proof (cases "running st")
    case False
    with Cons.prems c have "run_calls L cs st = Some st'" by (simp add: run_episode_def)
    from Cons.IH [OF this] False c show ?thesis by simp
  next
    case True
    obtain ep sa where alloc: "allocate_episode st = (ep, sa)" by (cases "allocate_episode st")
    then have sa: "scores sa = scores st"
      by (auto simp: allocate_episode_def emit_def Let_def)
    from Cons.prems c True alloc obtain r2 st2 where
      le: "locked_episode L ag en ep sa = Some (r2, st2)"
      by (auto simp: run_episode_def split: option.splits)
    from locked_episode_effect [OF le] obtain inner where
      "progresses sa (Acquire_env_lock (env_id en) # inner @ [Release_env_lock (env_id en)]) st2"
      by auto
    then have s2: "scores st2 = scores st" using sa unfolding progresses_def by auto
    show ?thesis
    proof (cases r2)
      case (Inl e)
      with Cons.prems c True alloc le have "run_calls L cs st2 = Some st'"
        by (simp add: run_episode_def)
      from Cons.IH [OF this] s2 Inl c True alloc le show ?thesis by simp
    next
      case (Inr score)
      obtain r3 st3 where lc: "locked_checks L (append_score score st2) = (r3, st3)"
        by (cases "locked_checks L (append_score score st2)")
      from locked_checks_effect [OF lc] have s3: "scores st3 = scores st2 @ [score]"
        by (auto simp: append_score_def emit_def)
      from Cons.prems c True alloc le Inr lc have "run_calls L cs st3 = Some st'"
        by (simp add: run_episode_def)
      from Cons.IH [OF this] s2 s3 Inr c True alloc le lc show ?thesis by simp
    qed
  qed
qed

text \<open>
  In calls made one after the other, every append to the scores happens while the
  session lock is free, and the scores grow by the score of each episode that
  returned, in the order of the calls.
\<close>

lemma scores_in_a_row:
  assumes "run_calls L cs st = Some st'"
  shows "appends_unlocked False (new_events st st')
         \<and> scores st' = scores st @ completed_scores L cs st"
proof -
  from run_calls_step [OF assms] obtain new where s: "session_step st new st'" by blast
  have "new_events st st' = new" using s by (rule session_step_new_events)
  with s run_calls_scores [OF assms] show ?thesis by (simp add: session_step_def)
qed

lemma scores_in_a_row_example:
  "\<exists>st'. run_calls (fixed_lib 2 1 StopEpisode)
            [(idle_agent, fixed_env 2 1 StopEpisode), (idle_agent, fixed_env 2 1 StopEpisode)]
            (session 100 None 0) = Some st'
         \<and> appends_unlocked False (new_events (session 100 None 0) st')
         \<and> scores st' = [2, 2]"
proof -
  let ?cs = "[(idle_agent, fixed_env 2 1 StopEpisode), (idle_agent, fixed_env 2 1 StopEpisode)]"
  let ?s = "session 100 None 0 :: (nat \<times> bool list, unit, unit) trainer"
  let ?r = "run_calls (fixed_lib 2 1 StopEpisode) ?cs ?s"
  have t: "map_option scores ?r = Some [2, 2]" by code_simp
  then obtain st' where r: "?r = Some st'" by auto
  with t have sc: "scores st' = [2, 2]" by simp
  from scores_in_a_row [OF r]
  have "appends_unlocked False (new_events ?s st')" by simp
  with r sc show ?thesis by blast
qed

subsection \<open>The scores under calls that overlap\<close>































text \<open>The locks exclude: a caller takes only a lock that no caller holds, and no lock
  is ever held by two callers.\<close>

lemma fine_step_takes_free_locks:
  assumes "fine_step L busy c st = (c', st')"
  shows "set (held c') \<subseteq> set (held c) \<union> {l. \<not> busy l}"
  using assms set_remove1_subset [of Session_lock "held c"]
    set_remove1_subset [of "Env_lock (env_id (its_env c))" "held c"]
  by (cases "point c")
     (auto simp: fine_step_def leave_env_def leave_session_def
           split: prod.splits sum.splits if_splits)

lemma busy_lock_held: "j < length cs \<Longrightarrow> l \<in> set (held (cs ! j)) \<Longrightarrow> busy_lock cs l"
  unfolding busy_lock_def list_ex_iff by (metis nth_mem)

lemma no_lock_held_twice:
  assumes "fine_run L sched cs st = (cs', st')"
    and "\<forall>i<length cs. \<forall>j<length cs. i \<noteq> j \<longrightarrow> set (held (cs ! i)) \<inter> set (held (cs ! j)) = {}"
  shows "\<forall>i<length cs'. \<forall>j<length cs'. i \<noteq> j \<longrightarrow> set (held (cs' ! i)) \<inter> set (held (cs' ! j)) = {}"
  using assms
proof (induction sched arbitrary: cs st)
  case Nil
  then show ?case by simp
next
  case (Cons k sched)
  show ?case
  proof (cases "k < length cs")
    case False
    with Cons.prems(1) have "fine_run L sched cs st = (cs', st')" by simp
    from Cons.IH [OF this Cons.prems(2)] show ?thesis .
  next
    case True
    obtain c1 st1 where s: "fine_step L (busy_lock cs) (cs ! k) st = (c1, st1)"
      by (cases "fine_step L (busy_lock cs) (cs ! k) st")
    with Cons.prems(1) True have r: "fine_run L sched (cs[k := c1]) st1 = (cs', st')" by simp
    note sub = fine_step_takes_free_locks [OF s]
    have new: "set (held c1) \<inter> set (held (cs ! j)) = {}" if "j < length cs" "j \<noteq> k" for j
    proof -
      have "set (held (cs ! k)) \<inter> set (held (cs ! j)) = {}"
        using Cons.prems(2) True that by blast
      moreover have "busy_lock cs l" if "l \<in> set (held (cs ! j))" for l
        using busy_lock_held [OF \<open>j < length cs\<close> that] .
      ultimately show ?thesis using sub by blast
    qed
    have "\<forall>i<length (cs[k := c1]). \<forall>j<length (cs[k := c1]). i \<noteq> j \<longrightarrow>
            set (held (cs[k := c1] ! i)) \<inter> set (held (cs[k := c1] ! j)) = {}"
    proof (intro allI impI)
      fix i j
      assume i: "i < length (cs[k := c1])" and j: "j < length (cs[k := c1])" and ij: "i \<noteq> j"
      show "set (held (cs[k := c1] ! i)) \<inter> set (held (cs[k := c1] ! j)) = {}"
      proof (cases "i = k")
        case True
        with i j ij new [of j] show ?thesis by simp
      next
        case ik: False
        show ?thesis
        proof (cases "j = k")
          case True
          with i j ij ik new [of i] show ?thesis by (simp add: Int_commute)
        next
          case False
          with i j ij ik Cons.prems(2) show ?thesis by simp
        qed
      qed
    qed
    from Cons.IH [OF r this] show ?thesis .
  qed
qed




subsection \<open>Epoch reports\<close>

lemma slice_from_last_entries:
  "0 < n \<Longrightarrow> slice_from (- n) xs = last_entries (nat n) xs"
  by (simp add: slice_from_def last_entries_def max_def nat_diff_distrib')

lemma last_entries_nonempty: "0 < n \<Longrightarrow> xs \<noteq> [] \<Longrightarrow> last_entries n xs \<noteq> []"
  by (cases xs) (auto simp: last_entries_def)

lemma grows_new_events: "grows st new st' \<Longrightarrow> new_events st st' = new"
  unfolding grows_def new_events_def by auto

lemma stop_training_quiet:
  assumes "stop_training L st = (r, st')"
  shows "filter is_print (new_events st st') = [] \<and> epoch st' = epoch st"
proof -
  from stop_training_effect [OF assms] obtain new where
    g: "grows (st\<lparr>running := False\<rparr>) (Set_running_False # new) st'" and
    ev: "list_all shutdown_event new"
    by auto
  from g have "new_events st st' = Set_running_False # new" and "epoch st' = epoch st"
    unfolding grows_def new_events_def by auto
  with shutdown_event_no_print [OF ev] show ?thesis by simp
qed

lemma next_epoch_report:
  assumes "0 < epoch_size st" and "scores st \<noteq> []"
  shows "next_epoch st =
     (Inr (), st\<lparr>epoch := epoch st + 1,
        trace := trace st @ [Print_epoch (epoch st + 1) (timestep st)
          (sum_list (last_entries (nat (epoch_size st)) (scores st))
             / real (length (last_entries (nat (epoch_size st)) (scores st))))]\<rparr>)"
  using assms last_entries_nonempty [of "nat (epoch_size st)" "scores st"]
  by (simp add: next_epoch_def Let_def slice_from_last_entries mean_def emit_def)

lemma stop_or_not:
  assumes "(if timesteps st1 \<le> timestep st1 then stop_training L st1 else (Inr (), st1))
             = (r, st')"
  shows "filter is_print (new_events st1 st') = [] \<and> epoch st' = epoch st1
         \<and> trace st' = trace st1 @ new_events st1 st'"
proof (cases "timesteps st1 \<le> timestep st1")
  case False
  with assms have "st' = st1" by simp
  then show ?thesis by (simp add: new_events_def)
next
  case True
  with assms have s: "stop_training L st1 = (r, st')" by simp
  from stop_training_effect [OF s] obtain new where
    "grows (st1\<lparr>running := False\<rparr>) (Set_running_False # new) st'" by auto
  then have "trace st' = trace st1 @ new_events st1 st'"
    unfolding grows_def new_events_def by auto
  with stop_training_quiet [OF s] show ?thesis by simp
qed

text \<open>
  C5, as amended. For an epoch size of at least 1, at the check that follows an
  episode (lines 94 to 98; the score of the episode is already appended, so the scores
  are not empty): a report is printed exactly when the session is still running and
  the timestep counter has reached \<open>(epoch + 1) * epoch_size\<close>; then the epoch number
  goes up by one and the average printed is the mean of the last \<open>epoch_size\<close> scores
  (of all of them when there are fewer). Otherwise nothing is printed and the epoch
  number stays.
\<close>

theorem epoch_report:
  assumes "0 < epoch_size st" and "scores st \<noteq> []" and "epoch_and_stop L st = (r, st')"
  shows "filter is_print (new_events st st') =
           (if running st \<and> (epoch st + 1) * epoch_size st \<le> timestep st
            then [Print_epoch (epoch st + 1) (timestep st)
                    (sum_list (last_entries (nat (epoch_size st)) (scores st))
                       / real (length (last_entries (nat (epoch_size st)) (scores st))))]
            else [])
         \<and> epoch st' =
           (if running st \<and> (epoch st + 1) * epoch_size st \<le> timestep st
            then epoch st + 1 else epoch st)"
proof (cases "running st \<and> (epoch st + 1) * epoch_size st \<le> timestep st")
  case False
  with assms(3) have
    "(if timesteps st \<le> timestep st then stop_training L st else (Inr (), st)) = (r, st')"
    by (simp add: epoch_and_stop_def Let_def)
  from stop_or_not [OF this] False show ?thesis by simp
next
  case True
  let ?p = "Print_epoch (epoch st + 1) (timestep st)
                    (sum_list (last_entries (nat (epoch_size st)) (scores st))
                       / real (length (last_entries (nat (epoch_size st)) (scores st))))"
  let ?st1 = "st\<lparr>epoch := epoch st + 1, trace := trace st @ [?p]\<rparr>"
  from assms(3) True next_epoch_report [OF assms(1,2)] have
    "(if timesteps ?st1 \<le> timestep ?st1 then stop_training L ?st1 else (Inr (), ?st1)) = (r, st')"
    by (simp add: epoch_and_stop_def Let_def)
  from stop_or_not [OF this] have q: "filter is_print (new_events ?st1 st') = []"
    and e: "epoch st' = epoch st + 1" and t: "trace st' = trace st @ ?p # new_events ?st1 st'"
    by simp_all
  have "drop (length (trace st)) (trace st') = ?p # new_events ?st1 st'"
    by (subst t) simp
  then have "new_events st st' = ?p # new_events ?st1 st'"
    unfolding new_events_def [of st st'] .
  with q e True show ?thesis by simp
qed

theorem epoch_report_witness:
  "0 < epoch_size ((session 100 (Some 2) 0)\<lparr>timestep := 2, scores := [2]\<rparr>)
   \<and> scores ((session 100 (Some 2) 0)\<lparr>timestep := 2, scores := [2]\<rparr>) \<noteq> []
   \<and> filter is_print (new_events ((session 100 (Some 2) 0)\<lparr>timestep := 2, scores := [2]\<rparr>)
        (snd (epoch_and_stop (fixed_lib 2 1 StopEpisode)
           ((session 100 (Some 2) 0)\<lparr>timestep := 2, scores := [2]\<rparr>))))
       = [Print_epoch 1 2 2]
   \<and> epoch (snd (epoch_and_stop (fixed_lib 2 1 StopEpisode)
           ((session 100 (Some 2) 0)\<lparr>timestep := 2, scores := [2]\<rparr>))) = 1"
proof -
  let ?s = "(session 100 (Some 2) 0)\<lparr>timestep := 2, scores := [2]\<rparr>
              :: (nat \<times> bool list, unit, unit) trainer"
  let ?L = "fixed_lib 2 1 StopEpisode"
  have a: "0 < epoch_size ?s" by (simp add: session_def)
  have b: "scores ?s \<noteq> []" by simp
  have c: "epoch_and_stop ?L ?s = (fst (epoch_and_stop ?L ?s), snd (epoch_and_stop ?L ?s))"
    by simp
  from epoch_report [OF a b c] a b show ?thesis
    by (simp add: session_def last_entries_def)
qed

text \<open>
  C5 as stated fails in two ways. With the default epoch size of a session of fewer
  than 100 timesteps, which is 0, the report after the first episode gives the mean of
  all scores (\<^verbatim>\<open>scores[-0:]\<close> is the whole list), while the last 0 entries have no
  mean. And for the second of two workers that both passed line 85, the counter has
  reached the boundary after its episode but nothing is printed, because the session
  is not running any more.
\<close>

theorem epoch_report_fails:
  "epoch_size (session 50 None 0) = 0
   \<and> map_option (\<lambda>p. filter is_print (trace (snd p)))
       (run_episode (fixed_lib 2 1 StopEpisode) idle_agent (fixed_env 2 1 StopEpisode)
          (session 50 None 0)) = Some [Print_epoch 1 2 2]
   \<and> mean (last_entries 0 [2]) = Inl ZeroDivisionError
   \<and> \<not> running (snd (interleave (fixed_lib 2 1 StopEpisode) [0, 1, 0, 1, 0, 1, 0, 1, 0]
         workers worker_session))
   \<and> (epoch (snd (interleave (fixed_lib 2 1 StopEpisode) [0, 1, 0, 1, 0, 1, 0, 1, 0]
         workers worker_session)) + 1)
       * epoch_size (snd (interleave (fixed_lib 2 1 StopEpisode) [0, 1, 0, 1, 0, 1, 0, 1, 0]
         workers worker_session))
       \<le> timestep (snd (interleave (fixed_lib 2 1 StopEpisode) [0, 1, 0, 1, 0, 1, 0, 1, 0]
         workers worker_session))
   \<and> filter is_print (trace (snd (interleave (fixed_lib 2 1 StopEpisode)
         [0, 1, 0, 1, 0, 1, 0, 1, 0] workers worker_session)))
       = filter is_print (trace (snd (interleave (fixed_lib 2 1 StopEpisode)
         [0, 1, 0, 1, 0, 1, 0, 1, 0, 1] workers worker_session)))"
  by code_simp

subsection \<open>Preprocesses and environments\<close>

lemma wrap_all_registers:
  "wrap_all ps en st = (Inr en', st') \<Longrightarrow> length (envs st') = length (envs st) + length ps"
proof (induction ps arbitrary: en st)
  case Nil
  then show ?case by simp
next
  case (Cons p ps)
  obtain r w where pw: "p en (world st) = (r, w)" by (cases "p en (world st)")
  show ?case
  proof (cases r)
    case (Inl e)
    with Cons.prems pw show ?thesis by simp
  next
    case (Inr wrapped)
    let ?st1 = "st\<lparr>world := w, fresh := fresh st + 1,
                   envs := envs st @ [wrapped\<lparr>env_id := fresh st\<rparr>]\<rparr>"
    from Cons.prems pw Inr
    have step: "wrap_all ps (wrapped\<lparr>env_id := fresh st\<rparr>) ?st1 = (Inr en', st')" by simp
    from Cons.IH [OF step] show ?thesis by simp
  qed
qed

lemma wrap_all_Nil_envs: "wrap_all [] en st = (r, st') \<Longrightarrow> envs st' = envs st"
  by simp

text \<open>With at least one preprocess, \<^verbatim>\<open>add_preprocess\<close> after a \<^verbatim>\<open>create_env\<close> that
  returned raises the \<^verbatim>\<open>RuntimeError\<close>.\<close>

lemma add_preprocess_after_create_env:
  assumes "create_env L st = (Inr en, st')" and "preprocesses st \<noteq> []"
  shows "add_preprocess p st' = Inl (RuntimeError ''must add preprocesses before creating envs'')"
proof -
  obtain r w where g: "GymEnv L (env_name st) (directory st) (world st) = (r, w)"
    by (cases "GymEnv L (env_name st) (directory st) (world st)")
  show ?thesis
  proof (cases r)
    case (Inl e)
    with assms(1) g show ?thesis by (simp add: create_env_def)
  next
    case (Inr base)
    with assms(1) g have
      "wrap_all (preprocesses st) (base\<lparr>env_id := fresh st\<rparr>)
         (st\<lparr>world := w, fresh := fresh st + 1\<rparr>) = (Inr en, st')"
      by (simp add: create_env_def)
    from wrap_all_registers [OF this] assms(2) have "envs st' \<noteq> []" by auto
    then show ?thesis by (simp add: add_preprocess_def)
  qed
qed

text \<open>Without a preprocess, \<^verbatim>\<open>create_env\<close> leaves \<^verbatim>\<open>self._envs\<close> as it was.\<close>

lemma create_env_no_preprocess:
  assumes "create_env L st = (r, st')" and "preprocesses st = []"
  shows "envs st' = envs st"
proof -
  obtain g w where g: "GymEnv L (env_name st) (directory st) (world st) = (g, w)"
    by (cases "GymEnv L (env_name st) (directory st) (world st)")
  with assms show ?thesis by (cases g) (auto simp: create_env_def)
qed

text \<open>
  C7. The claim: \<^verbatim>\<open>add_preprocess\<close> after any \<^verbatim>\<open>create_env\<close> fails, also when no
  preprocess was configured before. On the code: in a new trainer without a preprocess,
  \<^verbatim>\<open>create_env\<close> returns an environment and the following \<^verbatim>\<open>add_preprocess\<close> returns
  normally, because \<^verbatim>\<open>self._envs\<close> is still empty.
\<close>

theorem add_preprocess_accepted_after_create_env:
  "\<not> isl (fst (create_env (fixed_lib 2 1 StopEpisode) (session 10 None 0)))
   \<and> envs (snd (create_env (fixed_lib 2 1 StopEpisode) (session 10 None 0))) = []
   \<and> \<not> isl (add_preprocess plain_wrapper
              (snd (create_env (fixed_lib 2 1 StopEpisode) (session 10 None 0))))"
  by (simp add: create_env_def add_preprocess_def fixture_defs)

text \<open>
  C2. The claim: every environment that \<^verbatim>\<open>create_env\<close> returns is registered, whatever
  the number of preprocesses, and shutdown closes each created environment once. On the
  code: without a preprocess the returned environment (identity 0) is not in
  \<^verbatim>\<open>self._envs\<close> and \<^verbatim>\<open>_stop_training\<close> closes nothing; with two preprocesses the
  returned environment (identity 2) is registered together with the inner wrapper
  (identity 1), and the base environment (identity 0) is not.
\<close>

theorem create_env_registration:
  "map_sum id env_id (fst (create_env (fixed_lib 2 1 StopEpisode) (session 10 None 0))) = Inr 0
   \<and> map env_id (envs (snd (create_env (fixed_lib 2 1 StopEpisode) (session 10 None 0)))) = []
   \<and> closed_ids (trace (snd (stop_training (fixed_lib 2 1 StopEpisode)
        (snd (create_env (fixed_lib 2 1 StopEpisode) (session 10 None 0)))))) = []
   \<and> map_sum id env_id (fst (create_env (fixed_lib 2 1 StopEpisode)
        ((session 10 None 0)\<lparr>preprocesses := [plain_wrapper, plain_wrapper]\<rparr>))) = Inr 2
   \<and> map env_id (envs (snd (create_env (fixed_lib 2 1 StopEpisode)
        ((session 10 None 0)\<lparr>preprocesses := [plain_wrapper, plain_wrapper]\<rparr>)))) = [1, 2]"
  by (simp add: create_env_def stop_training_def store_scores_def truthy_def emit_def
      fixture_defs)

subsection \<open>A call while the session is stopped\<close>

text \<open>
  C3, as amended. A call of \<^verbatim>\<open>run_episode\<close> while \<^verbatim>\<open>running\<close> is false raises
  \<^verbatim>\<open>StopTraining\<close> (an exception, \<open>Inl\<close>) and leaves every field, the world and the
  trace as they were: no lock is taken, no collaborator is called, no counter changes.
\<close>

theorem run_episode_stopped:
  "\<not> running st \<Longrightarrow> run_episode L ag en st = Some (Inl StopTraining, st)"
  by (simp add: run_episode_def)

theorem run_episode_stopped_witness:
  "\<not> running stopped_session
   \<and> run_episode (fixed_lib 2 1 StopEpisode) idle_agent (fixed_env 2 1 StopEpisode)
       stopped_session = Some (Inl StopTraining, stopped_session)"
  using run_episode_stopped [of stopped_session "fixed_lib 2 1 StopEpisode" idle_agent
      "fixed_env 2 1 StopEpisode"]
  by (simp add: stopped_session_def)

text \<open>
  C3 as stated asks for an explicit result instead of a thrown exception. The call
  below does not return a value (\<open>Inr\<close>): it raises (\<open>Inl\<close>).
\<close>

theorem run_episode_stopped_raises:
  "map_option fst (run_episode (fixed_lib 2 1 StopEpisode) idle_agent
      (fixed_env 2 1 StopEpisode) ((session 3 None 0)\<lparr>running := False\<rparr>))
   = Some (Inl StopTraining)"
  by (simp add: run_episode_def)

subsection \<open>The video callback\<close>

lemma video_callback_disabled: "videos st = 0 \<Longrightarrow> \<not> video_callback st k"
  by (simp add: video_callback_def)

text \<open>While the episode numbered \<open>ep\<close> runs and no other caller has taken a number,
  the callback answers for \<open>ep + 1\<close>.\<close>

lemma video_callback_during_episode:
  "allocate_episode st = (ep, st') \<Longrightarrow> videos st \<noteq> 0 \<Longrightarrow>
     video_callback st' k = ((ep + 1) mod videos st = 0)"
  by (auto simp: allocate_episode_def video_callback_def emit_def Let_def)

text \<open>
  C8. The claim: with a period of 3 exactly the episodes 0, 3, 6, ... are flagged, the
  flag being computed from the number of the episode. On the code: the callback reads
  \<^verbatim>\<open>self._episode\<close>, which line 89 has already incremented when the environment is
  reset; in four calls in a row the environment is answered \<open>False\<close> in the episodes
  0, 1 and 3 and \<open>True\<close> in episode 2.
\<close>

theorem video_flags_of_four_episodes:
  "map_option (\<lambda>st. snd (world st))
     (run_calls (fixed_lib 2 1 StopEpisode)
        [(idle_agent, fixed_env 2 1 StopEpisode), (idle_agent, fixed_env 2 1 StopEpisode),
         (idle_agent, fixed_env 2 1 StopEpisode), (idle_agent, fixed_env 2 1 StopEpisode)]
        (session 100 None 3))
   = Some [False, False, True, False]"
  by code_simp

end
